theory Spec2Isabelle
  imports Main "HOL-Library.Monad_Syntax" "HOL-Library.AList"
begin

section \<open>Values exchanged with the outside world\<close>

text \<open>
  The reconciliation module (\<^verbatim>\<open>alfie-integrations\<close>) handles three kinds of untyped data: the
  body of the snapshot response, the content of the state file and the document handed to the
  credential tool. All three are JSON values. An object is a property list; \<open>map_of\<close> reads a
  property, and \<open>None\<close> stands for JavaScript's \<^verbatim>\<open>undefined\<close>. The code never looks at the value
  of a number (only at its type and truthiness), so numbers carry an integer.
  An object parsed from JSON has its properties as own properties, whatever their names.
\<close>

datatype json =
    JNull
  | JBool bool
  | JNum int
  | JStr string
  | JArr "json list"
  | JObj "(string \<times> json) list"

type_synonym obj = "(string \<times> json) list"

text \<open>Exceptions (promise rejections) are values; \<open>Inl\<close> is a raised exception.\<close>

datatype fs_step = Mkdir | WriteTmp | ChmodTmp | Rename | ChmodFinal

datatype error =
    NetworkError
  | TimeoutError
  | BodyReadError
  | SyntaxError
  | ENOENT
  | EACCES
  | WriteError fs_step

fun try_catch :: "error + 'a \<Rightarrow> (error \<Rightarrow> error + 'a) \<Rightarrow> error + 'a" where
  "try_catch (Inr v) handler = Inr v"
| "try_catch (Inl e) handler = handler e"

section \<open>The snapshot and its schema\<close>

record google_account =
  acct_id :: string
  email :: string
  refreshToken :: string
  scopes :: "string list option"
  updatedAtIso :: string

record google_integration =
  configured :: bool
  clientId :: "string option"
  clientSecret :: "string option"
  accounts :: "google_account list"

record integrations_part =
  google :: google_integration

record snapshot =
  tenantId :: string
  tenantStatus :: string
  version :: string
  integrations :: integrations_part

text \<open>
  The zod combinators used by \<^verbatim>\<open>AlfieIntegrationSnapshotSchema\<close>. Each takes the value found
  at a property (\<open>None\<close> when the property is missing) and returns the parsed value, or
  \<open>None\<close> when validation fails. \<^verbatim>\<open>z.object\<close> ignores properties it does not list.
\<close>

fun z_string :: "json option \<Rightarrow> string option" where
  "z_string (Some (JStr s)) = Some s"
| "z_string _ = None"

definition z_string_min1 :: "json option \<Rightarrow> string option" where
  "z_string_min1 v = (case z_string v of Some s \<Rightarrow> if 1 \<le> length s then Some s else None | None \<Rightarrow> None)"

fun z_boolean :: "json option \<Rightarrow> bool option" where
  "z_boolean (Some (JBool b)) = Some b"
| "z_boolean _ = None"

fun z_literal_true :: "json option \<Rightarrow> bool option" where
  "z_literal_true (Some (JBool True)) = Some True"
| "z_literal_true _ = None"

fun z_nullable :: "(json option \<Rightarrow> 'a option) \<Rightarrow> json option \<Rightarrow> 'a option option" where
  "z_nullable p (Some JNull) = Some None"
| "z_nullable p v = map_option Some (p v)"

fun z_array :: "(json option \<Rightarrow> 'a option) \<Rightarrow> json option \<Rightarrow> 'a list option" where
  "z_array p (Some (JArr xs)) = those (map (\<lambda>x. p (Some x)) xs)"
| "z_array p _ = None"

fun z_object :: "json option \<Rightarrow> obj option" where
  "z_object (Some (JObj kvs)) = Some kvs"
| "z_object _ = None"

definition account_schema :: "json option \<Rightarrow> google_account option" where
  "account_schema v = do {
     a \<leftarrow> z_object v;
     i \<leftarrow> z_string_min1 (map_of a ''id'');
     e \<leftarrow> z_string_min1 (map_of a ''email'');
     r \<leftarrow> z_string_min1 (map_of a ''refreshToken'');
     s \<leftarrow> z_nullable (z_array z_string) (map_of a ''scopes'');
     u \<leftarrow> z_string_min1 (map_of a ''updatedAtIso'');
     Some \<lparr>acct_id = i, email = e, refreshToken = r, scopes = s, updatedAtIso = u\<rparr>
   }"

definition google_schema :: "json option \<Rightarrow> google_integration option" where
  "google_schema v = do {
     g \<leftarrow> z_object v;
     c \<leftarrow> z_boolean (map_of g ''configured'');
     ci \<leftarrow> z_nullable z_string (map_of g ''clientId'');
     cs \<leftarrow> z_nullable z_string (map_of g ''clientSecret'');
     as \<leftarrow> z_array account_schema (map_of g ''accounts'');
     Some \<lparr>configured = c, clientId = ci, clientSecret = cs, accounts = as\<rparr>
   }"

definition integrations_schema :: "json option \<Rightarrow> integrations_part option" where
  "integrations_schema v = do {
     i \<leftarrow> z_object v;
     g \<leftarrow> google_schema (map_of i ''google'');
     Some \<lparr>google = g\<rparr>
   }"

definition AlfieIntegrationSnapshotSchema :: "json option \<Rightarrow> snapshot option" where
  "AlfieIntegrationSnapshotSchema v = do {
     top \<leftarrow> z_object v;
     _ \<leftarrow> z_literal_true (map_of top ''ok'');
     t \<leftarrow> z_string_min1 (map_of top ''tenantId'');
     ts \<leftarrow> z_string_min1 (map_of top ''tenantStatus'');
     ver \<leftarrow> z_string_min1 (map_of top ''version'');
     ig \<leftarrow> integrations_schema (map_of top ''integrations'');
     Some \<lparr>tenantId = t, tenantStatus = ts, version = ver, integrations = ig\<rparr>
   }"

section \<open>The platform\<close>

text \<open>
  Everything the module imports or calls but does not define is a field of \<open>sys\<close>: the
  JSON codec, the string methods \<^verbatim>\<open>trim\<close> and \<^verbatim>\<open>toLowerCase\<close>, the HTTP client, the process
  runner (over the state \<open>'w\<close> of the credential tool), \<^verbatim>\<open>process.env\<close>, the clock, and the
  imported helpers \<^verbatim>\<open>isTruthyEnvValue\<close>, \<^verbatim>\<open>hasBinary\<close> and \<^verbatim>\<open>CONFIG_DIR\<close>. Strings are lists
  of code units; nothing is assumed of what \<^verbatim>\<open>trim\<close> strips or \<^verbatim>\<open>toLowerCase\<close> maps. A
  \<^verbatim>\<open>number\<close> is an integer, or \<open>None\<close> when it is not finite. \<open>fetch\<close> stands for the
  whole call of lines 146 to 149, the creation of the abort signal included: \<open>Rejects\<close> is
  whatever that call throws or rejects with. Each of the two atomic writes may fail at any of
  its five file operations. The process runner always returns a result. Calls of the logger are
  left out: they change neither the control flow nor any state.
\<close>

type_synonym number = "int option"

record response =
  res_ok :: bool
  res_status :: nat
  res_text :: "error + string"

datatype fetch_outcome = Rejects error | Resolves response

record command =
  argv :: "string list"
  cmd_timeoutMs :: number
  cmd_input :: string
  cmd_env :: "(string \<times> string) list"

record cmd_result =
  code :: "int option"
  stdout :: string
  stderr :: string

record 'w sys =
  JSON_parse :: "string \<Rightarrow> error + json"
  JSON_stringify :: "json \<Rightarrow> string"
  String_trim :: "string \<Rightarrow> string"
  String_toLowerCase :: "string \<Rightarrow> string"
  fetch :: "string \<Rightarrow> string \<Rightarrow> number \<Rightarrow> fetch_outcome"
  runCommandWithTimeout :: "'w \<Rightarrow> command \<Rightarrow> 'w \<times> cmd_result"
  process_env :: "string \<Rightarrow> string option"
  isTruthyEnvValue :: "string option \<Rightarrow> bool"
  hasBinary :: "string \<Rightarrow> bool"
  CONFIG_DIR :: string
  Number :: "string \<Rightarrow> number"
  now_iso :: string
  creds_fs_fails :: "fs_step \<Rightarrow> bool"
  state_fs_fails :: "fs_step \<Rightarrow> bool"

text \<open>
  The two files the module owns: the state file \<^verbatim>\<open>CONFIG_DIR/alfie/integrations.json\<close> and the
  client-credentials file \<^verbatim>\<open>gogcli/credentials.json\<close> of the tool. Temporary siblings are not
  tracked.
\<close>

datatype fs_file = Missing | Unreadable | Content string

record disk =
  state_file :: fs_file
  creds_file :: fs_file

definition fs_readFile :: "fs_file \<Rightarrow> error + string" where
  "fs_readFile f = (case f of Missing \<Rightarrow> Inl ENOENT | Unreadable \<Rightarrow> Inl EACCES | Content raw \<Rightarrow> Inr raw)"

section \<open>Local state store\<close>

text \<open>
  \<^verbatim>\<open>readState\<close>: the body of the \<^verbatim>\<open>try\<close> reads and parses the file and returns \<^verbatim>\<open>{}\<close> unless the
  parsed value is truthy, of type object and not an array; the \<^verbatim>\<open>catch\<close> returns \<^verbatim>\<open>{}\<close>.
\<close>

fun truthy :: "json \<Rightarrow> bool" where
  "truthy JNull = False"
| "truthy (JBool b) = b"
| "truthy (JNum n) = (n \<noteq> 0)"
| "truthy (JStr s) = (s \<noteq> [])"
| "truthy (JArr xs) = True"
| "truthy (JObj kvs) = True"

fun typeof_object :: "json \<Rightarrow> bool" where
  "typeof_object JNull = True"
| "typeof_object (JArr xs) = True"
| "typeof_object (JObj kvs) = True"
| "typeof_object _ = False"

fun isArray :: "json \<Rightarrow> bool" where
  "isArray (JArr xs) = True"
| "isArray _ = False"

fun as_object :: "json \<Rightarrow> obj" where
  "as_object (JObj kvs) = kvs"
| "as_object _ = []"

definition readState :: "'w sys \<Rightarrow> disk \<Rightarrow> error + obj" where
  "readState sys d =
     try_catch
       (case fs_readFile (state_file d) of
          Inl e \<Rightarrow> Inl e
        | Inr raw \<Rightarrow>
            (case JSON_parse sys raw of
               Inl e \<Rightarrow> Inl e
             | Inr parsed \<Rightarrow>
                 if \<not> truthy parsed \<or> \<not> typeof_object parsed \<or> isArray parsed then Inr []
                 else Inr (as_object parsed)))
       (\<lambda>e. Inr [])"

text \<open>
  \<^verbatim>\<open>writeState\<close>: mkdir, write the temporary file, chmod it, rename it over the state file,
  chmod the state file. The first failing operation raises; the state file has its new content
  from the rename on.
\<close>

definition writeState :: "'w sys \<Rightarrow> disk \<Rightarrow> obj \<Rightarrow> error option \<times> disk" where
  "writeState sys d next =
     (let text = JSON_stringify sys (JObj next) @ [CHR 0x0A] in
      if state_fs_fails sys Mkdir then (Some (WriteError Mkdir), d)
      else if state_fs_fails sys WriteTmp then (Some (WriteError WriteTmp), d)
      else if state_fs_fails sys ChmodTmp then (Some (WriteError ChmodTmp), d)
      else if state_fs_fails sys Rename then (Some (WriteError Rename), d)
      else if state_fs_fails sys ChmodFinal
        then (Some (WriteError ChmodFinal), d\<lparr>state_file := Content text\<rparr>)
      else (None, d\<lparr>state_file := Content text\<rparr>))"

section \<open>Credential importer\<close>

definition resolveXdgConfigHome :: "'w sys \<Rightarrow> string" where
  "resolveXdgConfigHome sys =
     (let raw = String_trim sys (case process_env sys ''XDG_CONFIG_HOME'' of Some v \<Rightarrow> v | None \<Rightarrow> [])
      in if raw \<noteq> [] then raw else CONFIG_DIR sys)"

definition ensureGogClientCredentials :: "'w sys \<Rightarrow> disk \<Rightarrow> string \<Rightarrow> string \<Rightarrow> string \<Rightarrow> error option \<times> disk" where
  "ensureGogClientCredentials sys d xdgConfigHome cid csecret =
     (let payload = JObj [(''client_id'', JStr cid), (''client_secret'', JStr csecret)];
          text = JSON_stringify sys payload @ [CHR 0x0A] in
      if creds_fs_fails sys Mkdir then (Some (WriteError Mkdir), d)
      else if creds_fs_fails sys WriteTmp then (Some (WriteError WriteTmp), d)
      else if creds_fs_fails sys ChmodTmp then (Some (WriteError ChmodTmp), d)
      else if creds_fs_fails sys Rename then (Some (WriteError Rename), d)
      else if creds_fs_fails sys ChmodFinal
        then (Some (WriteError ChmodFinal), d\<lparr>creds_file := Content text\<rparr>)
      else (None, d\<lparr>creds_file := Content text\<rparr>))"

record import_params =
  ip_xdgConfigHome :: string
  ip_keyringPassword :: string
  ip_email :: string
  ip_refreshToken :: string
  ip_scopes :: "string list option"
  ip_timeoutMs :: number

datatype import_result = ImportOk | ImportFailed string

definition digit_char :: "nat \<Rightarrow> char" where
  "digit_char n = ''0123456789'' ! n"

fun digits :: "nat \<Rightarrow> string" where
  "digits n = (if n < 10 then [digit_char n] else digits (n div 10) @ [digit_char (n mod 10)])"

declare digits.simps [simp del]

definition String_code :: "int option \<Rightarrow> string" where
  "String_code c =
     (case c of
        None \<Rightarrow> ''null''
      | Some i \<Rightarrow> if i < 0 then CHR ''-'' # digits (nat (- i)) else digits (nat i))"

definition import_input :: "import_params \<Rightarrow> json" where
  "import_input p =
     JObj ([(''email'', JStr (ip_email p)), (''refresh_token'', JStr (ip_refreshToken p))]
           @ (case ip_scopes p of
                None \<Rightarrow> []
              | Some ss \<Rightarrow> [(''scopes'', JArr (map JStr ss))]))"

definition import_command :: "'w sys \<Rightarrow> import_params \<Rightarrow> command" where
  "import_command sys p =
     \<lparr>argv = [''gog'', ''--no-input'', ''--plain'', ''auth'', ''tokens'', ''import'', ''-''],
      cmd_timeoutMs = ip_timeoutMs p,
      cmd_input = JSON_stringify sys (import_input p) @ [CHR 0x0A],
      cmd_env = [(''XDG_CONFIG_HOME'', ip_xdgConfigHome p),
                 (''GOG_KEYRING_BACKEND'', ''file''),
                 (''GOG_KEYRING_PASSWORD'', ip_keyringPassword p)]\<rparr>"

definition importGogRefreshToken :: "'w sys \<Rightarrow> 'w \<Rightarrow> import_params \<Rightarrow> 'w \<times> import_result" where
  "importGogRefreshToken sys w p =
     (case runCommandWithTimeout sys w (import_command sys p) of
        (w', result) \<Rightarrow>
          if code result \<noteq> Some 0 then
            (let err = String_trim sys (stderr result); out = String_trim sys (stdout result) in
             (w', ImportFailed
                    (if err \<noteq> [] then err
                     else if out \<noteq> [] then out
                     else ''gog exited with code '' @ String_code (code result))))
          else (w', ImportOk))"

section \<open>Snapshot fetcher\<close>

text \<open>\<^verbatim>\<open>raw.trim().replace(/\/+$/, "")\<close>: trim, then drop every trailing slash.\<close>

definition normalizeBaseUrl :: "'w sys \<Rightarrow> string \<Rightarrow> string" where
  "normalizeBaseUrl sys raw = rev (dropWhile (\<lambda>c. c = CHR ''/'') (rev (String_trim sys raw)))"

definition snapshot_url :: "'w sys \<Rightarrow> string \<Rightarrow> string" where
  "snapshot_url sys apiUrl =
     normalizeBaseUrl sys apiUrl @ ''/internal/v1/tenant-integrations/snapshot''"

text \<open>
  \<^verbatim>\<open>fetchIntegrationSnapshot\<close>: the \<^verbatim>\<open>await fetch(...)\<close> and the \<^verbatim>\<open>await res.text()\<close> stand before
  the \<^verbatim>\<open>try\<close>; only \<^verbatim>\<open>JSON.parse\<close> and the schema check are inside it.
\<close>

definition fetchIntegrationSnapshot :: "'w sys \<Rightarrow> string \<Rightarrow> string \<Rightarrow> number \<Rightarrow> error + snapshot option" where
  "fetchIntegrationSnapshot sys apiUrl gatewayToken timeoutMs =
     (case fetch sys (snapshot_url sys apiUrl) (''Bearer '' @ gatewayToken) timeoutMs of
        Rejects e \<Rightarrow> Inl e
      | Resolves res \<Rightarrow>
          (case res_text res of
             Inl e \<Rightarrow> Inl e
           | Inr text \<Rightarrow>
               if \<not> res_ok res then Inr None
               else
                 try_catch
                   (case JSON_parse sys text of
                      Inl e \<Rightarrow> Inl e
                    | Inr js \<Rightarrow>
                        (case AlfieIntegrationSnapshotSchema (Some js) of
                           None \<Rightarrow> Inr None
                         | Some parsed \<Rightarrow> Inr (Some parsed)))
                   (\<lambda>e. Inr None)))"

section \<open>Reconciliation engine\<close>

record sync_params =
  p_apiUrl :: "string option"
  p_gatewayToken :: "string option"
  p_timeoutMs :: "number option"

text \<open>Lines 206 to 208: trim and lower-case every email, then drop the accounts left without one.\<close>

definition normalize_accounts :: "'w sys \<Rightarrow> google_account list \<Rightarrow> google_account list" where
  "normalize_accounts sys as =
     filter (\<lambda>acct. email acct \<noteq> [])
       (map (\<lambda>acct. acct\<lparr>email := String_toLowerCase sys (String_trim sys (email acct))\<rparr>) as)"

text \<open>
  \<^verbatim>\<open>{ ...(state.google ?? {}) }\<close>: the state file is not validated, so \<^verbatim>\<open>state.google\<close> is any
  JSON value. Spreading an object copies its properties, spreading an array or a string gives
  the elements under their indices, and spreading anything else gives nothing.
\<close>

fun nullish_or :: "json option \<Rightarrow> json \<Rightarrow> json" where
  "nullish_or None d = d"
| "nullish_or (Some JNull) d = d"
| "nullish_or (Some v) d = v"

fun spread :: "json \<Rightarrow> obj" where
  "spread (JObj kvs) = kvs"
| "spread (JArr xs) = zip (map digits [0..<length xs]) xs"
| "spread (JStr s) = zip (map digits [0..<length s]) (map (\<lambda>c. JStr [c]) s)"
| "spread _ = []"

text \<open>
  The object \<^verbatim>\<open>googleState\<close> is created at line 224, read at line 228 and assigned to at line
  244. It is an ordinary JavaScript object: it has its own properties, and a prototype, which
  is \<^verbatim>\<open>Object.prototype\<close> (\<open>None\<close> below) until an assignment installs another object (then
  \<open>proto_props\<close> holds the properties of that object).

  Reading \<^verbatim>\<open>o[k]\<close> gives the own property \<open>k\<close> when there is one. Otherwise the read goes to
  the prototype: for the name \<^verbatim>\<open>__proto__\<close> the getter of \<^verbatim>\<open>Object.prototype\<close> answers with the
  prototype itself, and for any other name the answer is the property of the installed
  prototype. What \<^verbatim>\<open>Object.prototype\<close> itself holds are functions, which have no
  \<^verbatim>\<open>updatedAtIso\<close>: a read that ends there gives \<open>None\<close>, as a missing property does.

  Assigning \<^verbatim>\<open>o[k] = {...}\<close> stores an own property, with one exception: for the name
  \<^verbatim>\<open>__proto__\<close>, when \<open>o\<close> has no own property of that name, the setter of \<^verbatim>\<open>Object.prototype\<close>
  runs and installs the assigned object as the prototype of \<open>o\<close>; no own property is stored.
\<close>

record js_object =
  own_props :: obj
  proto_props :: "obj option"

definition js_get :: "js_object \<Rightarrow> string \<Rightarrow> json option" where
  "js_get ob k =
     (case map_of (own_props ob) k of
        Some v \<Rightarrow> Some v
      | None \<Rightarrow>
          (case proto_props ob of
             None \<Rightarrow> if k = ''__proto__'' then Some (JObj []) else None
           | Some pr \<Rightarrow> if k = ''__proto__'' then Some (JObj pr) else map_of pr k))"

definition js_set :: "js_object \<Rightarrow> string \<Rightarrow> obj \<Rightarrow> js_object" where
  "js_set ob k props =
     (if k = ''__proto__'' \<and> map_of (own_props ob) k = None
      then ob\<lparr>proto_props := Some props\<rparr>
      else ob\<lparr>own_props := AList.update k (JObj props) (own_props ob)\<rparr>)"

text \<open>\<^verbatim>\<open>googleState[acct.email]?.updatedAtIso ?? ""\<close>\<close>

definition prev_watermark :: "js_object \<Rightarrow> string \<Rightarrow> json" where
  "prev_watermark googleState e =
     nullish_or
       (case js_get googleState e of
          Some (JObj entry) \<Rightarrow> map_of entry ''updatedAtIso''
        | _ \<Rightarrow> None)
       (JStr [])"

record 'w loop_state =
  tool :: 'w
  googleState :: js_object
  changed :: bool
  calls :: "(import_params \<times> import_result) list"

text \<open>One iteration of the \<^verbatim>\<open>for\<close> loop of lines 227 to 246.\<close>

definition process_account :: "'w sys \<Rightarrow> string \<Rightarrow> string \<Rightarrow> google_account \<Rightarrow> 'w loop_state \<Rightarrow> 'w loop_state" where
  "process_account sys xdgConfigHome keyringPassword acct st =
     (let prev = prev_watermark (googleState st) (email acct) in
      if truthy prev \<and> prev = JStr (updatedAtIso acct) then st
      else
        (let p = \<lparr>ip_xdgConfigHome = xdgConfigHome, ip_keyringPassword = keyringPassword,
                  ip_email = email acct, ip_refreshToken = refreshToken acct,
                  ip_scopes = scopes acct, ip_timeoutMs = Some 30000\<rparr> in
         case importGogRefreshToken sys (tool st) p of
           (w', result) \<Rightarrow>
             (case result of
                ImportFailed err \<Rightarrow> st\<lparr>tool := w', calls := calls st @ [(p, result)]\<rparr>
              | ImportOk \<Rightarrow>
                  st\<lparr>tool := w',
                     googleState :=
                       js_set (googleState st) (email acct) [(''updatedAtIso'', JStr (updatedAtIso acct))],
                     changed := True,
                     calls := calls st @ [(p, result)]\<rparr>)))"

fun sync_loop :: "'w sys \<Rightarrow> string \<Rightarrow> string \<Rightarrow> google_account list \<Rightarrow> 'w loop_state \<Rightarrow> 'w loop_state" where
  "sync_loop sys xdgConfigHome keyringPassword [] st = st"
| "sync_loop sys xdgConfigHome keyringPassword (acct # rest) st =
     sync_loop sys xdgConfigHome keyringPassword rest
       (process_account sys xdgConfigHome keyringPassword acct st)"

text \<open>
  What one call of \<^verbatim>\<open>syncAlfieIntegrationsOnce\<close> did: the exception it raised (if any), the tool
  and the disk afterwards, the importer calls with their results in order, and the state handed
  to \<^verbatim>\<open>writeState\<close> (if it was called).
\<close>

record 'w run =
  run_raised :: "error option"
  run_tool :: 'w
  run_disk :: disk
  run_imports :: "(import_params \<times> import_result) list"
  run_written :: "obj option"

definition idle :: "'w \<Rightarrow> disk \<Rightarrow> 'w run" where
  "idle w d =
     \<lparr>run_raised = None, run_tool = w, run_disk = d, run_imports = [], run_written = None\<rparr>"

text \<open>
  Lines 223 to 256: read the state, run the loop, persist. \<^verbatim>\<open>JSON.stringify\<close> serializes the
  own properties of an object and nothing of its prototype, so what is written for
  \<^verbatim>\<open>google\<close> are the own properties of \<^verbatim>\<open>googleState\<close>.
\<close>

definition next_state :: "'w sys \<Rightarrow> obj \<Rightarrow> snapshot \<Rightarrow> js_object \<Rightarrow> obj" where
  "next_state sys state snap gs =
     AList.update ''syncedAtIso'' (JStr (now_iso sys))
       (AList.update ''google'' (JObj (own_props gs))
          (AList.update ''version'' (JStr (version snap)) state))"

definition reconcile :: "'w sys \<Rightarrow> snapshot \<Rightarrow> google_account list \<Rightarrow> string \<Rightarrow> string \<Rightarrow> 'w \<Rightarrow> disk \<Rightarrow> 'w run" where
  "reconcile sys snap accts xdgConfigHome keyringPassword w d =
     (case readState sys d of
        Inl e \<Rightarrow> (idle w d)\<lparr>run_raised := Some e\<rparr>
      | Inr state \<Rightarrow>
          (let st = sync_loop sys xdgConfigHome keyringPassword accts
                      \<lparr>tool = w,
                       googleState =
                         \<lparr>own_props = spread (nullish_or (map_of state ''google'') (JObj [])),
                          proto_props = None\<rparr>,
                       changed = False, calls = []\<rparr> in
           if changed st \<or> map_of state ''version'' \<noteq> Some (JStr (version snap)) then
             (let next = next_state sys state snap (googleState st) in
              case writeState sys d next of
                (err, d') \<Rightarrow>
                  \<lparr>run_raised = err, run_tool = tool st, run_disk = d',
                   run_imports = calls st, run_written = Some next\<rparr>)
           else
             \<lparr>run_raised = None, run_tool = tool st, run_disk = d,
              run_imports = calls st, run_written = None\<rparr>))"

definition or_else :: "'a option \<Rightarrow> 'a \<Rightarrow> 'a" where
  "or_else v d = (case v of Some x \<Rightarrow> x | None \<Rightarrow> d)"

definition syncAlfieIntegrationsOnce :: "'w sys \<Rightarrow> sync_params \<Rightarrow> 'w \<Rightarrow> disk \<Rightarrow> 'w run" where
  "syncAlfieIntegrationsOnce sys params w d =
     (if \<not> isTruthyEnvValue sys (process_env sys ''ALFIE_MODE'') then idle w d
      else
        (let apiUrl = String_trim sys (or_else (p_apiUrl params) (or_else (process_env sys ''ALFIE_API_URL'') [])) in
         if apiUrl = [] then idle w d
         else
           (let gatewayToken =
                  String_trim sys (or_else (p_gatewayToken params)
                          (or_else (process_env sys ''OPENCLAW_GATEWAY_TOKEN'') [])) in
            if gatewayToken = [] then idle w d
            else if \<not> hasBinary sys ''gog'' then idle w d
            else
              (let timeoutMs =
                     or_else (p_timeoutMs params)
                       (Number sys
                          (or_else (process_env sys ''ALFIE_INTEGRATION_SNAPSHOT_TIMEOUT_MS'') ''10000''))
               in
                 (case fetchIntegrationSnapshot sys apiUrl gatewayToken timeoutMs of
                    Inl e \<Rightarrow> (idle w d)\<lparr>run_raised := Some e\<rparr>
                  | Inr None \<Rightarrow> idle w d
                  | Inr (Some snap) \<Rightarrow>
                      (let g = google (integrations snap) in
                       if \<not> configured g \<or> or_else (clientId g) [] = []
                            \<or> or_else (clientSecret g) [] = []
                       then idle w d
                       else
                         (let accts = normalize_accounts sys (accounts g) in
                          if length accts = 0 then idle w d
                          else
                            (let xdgConfigHome = resolveXdgConfigHome sys;
                                 kp = String_trim sys (or_else (process_env sys ''GOG_KEYRING_PASSWORD'') []);
                                 keyringPassword = (if kp \<noteq> [] then kp else gatewayToken)
                             in
                               (case ensureGogClientCredentials sys d xdgConfigHome
                                       (or_else (clientId g) []) (or_else (clientSecret g) []) of
                                  (Some e, d') \<Rightarrow> (idle w d')\<lparr>run_raised := Some e\<rparr>
                                | (None, d') \<Rightarrow>
                                    reconcile sys snap accts xdgConfigHome keyringPassword w d')))))))))"

section \<open>Scheduler\<close>

text \<open>
  \<^verbatim>\<open>startAlfieIntegrationSyncIfEnabled\<close> awaits one cycle, catching what it raises, and then arms
  an interval timer whose callback starts a cycle without awaiting it. The scheduler is a
  transition system over two events: the timer fires, or a pending cycle settles. It counts the
  cycles in flight and the cycles started, and notes whether a cycle was ever started while
  another was in flight.
\<close>

datatype sched_event = Tick | Settle

record scheduler =
  timer :: "int option"
  in_flight :: nat
  started :: nat
  overlapped :: bool

definition no_params :: sync_params where
  "no_params = \<lparr>p_apiUrl = None, p_gatewayToken = None, p_timeoutMs = None\<rparr>"

definition startAlfieIntegrationSyncIfEnabled :: "'w sys \<Rightarrow> 'w \<Rightarrow> disk \<Rightarrow> 'w \<times> disk \<times> scheduler" where
  "startAlfieIntegrationSyncIfEnabled sys w d =
     (if \<not> isTruthyEnvValue sys (process_env sys ''ALFIE_MODE'')
      then (w, d, \<lparr>timer = None, in_flight = 0, started = 0, overlapped = False\<rparr>)
      else
        let intervalMs = Number sys (or_else (process_env sys ''ALFIE_INTEGRATION_SYNC_INTERVAL_MS'') ''30000'');
            boundedIntervalMs = (case intervalMs of Some n \<Rightarrow> if n > 0 then n else 30000 | None \<Rightarrow> 30000);
            r = syncAlfieIntegrationsOnce sys no_params w d
        in (run_tool r, run_disk r,
            \<lparr>timer = Some boundedIntervalMs, in_flight = 0, started = 1, overlapped = False\<rparr>))"

text \<open>The callback of \<^verbatim>\<open>setInterval\<close> (lines 273 to 277) and the settling of a pending cycle.\<close>

fun sched_step :: "scheduler \<Rightarrow> sched_event \<Rightarrow> scheduler" where
  "sched_step sc Tick =
     (case timer sc of
        None \<Rightarrow> sc
      | Some ms \<Rightarrow>
          sc\<lparr>in_flight := in_flight sc + 1, started := started sc + 1,
             overlapped := (overlapped sc \<or> 0 < in_flight sc)\<rparr>)"
| "sched_step sc Settle = (if in_flight sc = 0 then sc else sc\<lparr>in_flight := in_flight sc - 1\<rparr>)"

definition sched_run :: "scheduler \<Rightarrow> sched_event list \<Rightarrow> scheduler" where
  "sched_run sc evs = foldl sched_step sc evs"

section \<open>Notions used to state the properties\<close>

text \<open>
  The test of line 229: the account is skipped when its \<^verbatim>\<open>updatedAtIso\<close> is the watermark already
  held for its email.
\<close>

definition up_to_date :: "js_object \<Rightarrow> google_account \<Rightarrow> bool" where
  "up_to_date gs acct =
     (truthy (prev_watermark gs (email acct)) \<and> prev_watermark gs (email acct) = JStr (updatedAtIso acct))"

text \<open>The parameters of the importer call of lines 232 to 239, and the entry stored at line 244.\<close>

definition account_params :: "string \<Rightarrow> string \<Rightarrow> google_account \<Rightarrow> import_params" where
  "account_params xdgConfigHome keyringPassword acct =
     \<lparr>ip_xdgConfigHome = xdgConfigHome, ip_keyringPassword = keyringPassword,
      ip_email = email acct, ip_refreshToken = refreshToken acct,
      ip_scopes = scopes acct, ip_timeoutMs = Some 30000\<rparr>"

definition watermark_props :: "google_account \<Rightarrow> obj" where
  "watermark_props acct = [(''updatedAtIso'', JStr (updatedAtIso acct))]"

definition watermark_entry :: "google_account \<Rightarrow> json" where
  "watermark_entry acct = JObj (watermark_props acct)"

text \<open>The importer calls made by the loop itself, in order.\<close>

definition loop_calls :: "'w sys \<Rightarrow> string \<Rightarrow> string \<Rightarrow> google_account list \<Rightarrow> 'w loop_state \<Rightarrow> (import_params \<times> import_result) list" where
  "loop_calls sys x k xs st = drop (length (calls st)) (calls (sync_loop sys x k xs st))"

text \<open>
  The watermark stored for an email, as line 228 reads it: the \<^verbatim>\<open>updatedAtIso\<close> property of
  the entry \<^verbatim>\<open>googleState[email]\<close>, if there is one.
\<close>

definition stored_watermark :: "js_object \<Rightarrow> string \<Rightarrow> json option" where
  "stored_watermark gs e =
     (case js_get gs e of
        Some (JObj entry) \<Rightarrow> map_of entry ''updatedAtIso''
      | _ \<Rightarrow> None)"

text \<open>The state in which the loop starts (lines 223 to 225), given the state that was read.\<close>

definition loop_start :: "'w \<Rightarrow> obj \<Rightarrow> 'w loop_state" where
  "loop_start w state =
     \<lparr>tool = w,
      googleState = \<lparr>own_props = spread (nullish_or (map_of state ''google'') (JObj [])),
                     proto_props = None\<rparr>,
      changed = False, calls = []\<rparr>"

text \<open>Entries of the account list that share an email also share their \<^verbatim>\<open>updatedAtIso\<close>.\<close>

definition consistent_watermarks :: "google_account list \<Rightarrow> bool" where
  "consistent_watermarks as =
     list_all (\<lambda>a. list_all (\<lambda>b. email a = email b \<longrightarrow> updatedAtIso a = updatedAtIso b) as) as"

text \<open>
  No property of the installed prototype is itself an object. The loop only ever installs an
  object whose one property is a string.
\<close>

definition flat_proto :: "js_object \<Rightarrow> bool" where
  "flat_proto ob =
     (case proto_props ob of
        None \<Rightarrow> True
      | Some pr \<Rightarrow> list_all (\<lambda>kv. case snd kv of JObj entry \<Rightarrow> False | _ \<Rightarrow> True) pr)"


text \<open>
  What a cycle asks the server (lines 176 to 190): the base URL, the token and the timeout it
  computes from its parameters and the environment, and the answer of the fetcher to that
  request. \<open>sync_keyringPassword\<close> is the password of line 215.
\<close>

definition sync_apiUrl :: "'w sys \<Rightarrow> sync_params \<Rightarrow> string" where
  "sync_apiUrl sys params =
     String_trim sys (or_else (p_apiUrl params) (or_else (process_env sys ''ALFIE_API_URL'') []))"

definition sync_gatewayToken :: "'w sys \<Rightarrow> sync_params \<Rightarrow> string" where
  "sync_gatewayToken sys params =
     String_trim sys (or_else (p_gatewayToken params) (or_else (process_env sys ''OPENCLAW_GATEWAY_TOKEN'') []))"

definition sync_timeoutMs :: "'w sys \<Rightarrow> sync_params \<Rightarrow> number" where
  "sync_timeoutMs sys params =
     or_else (p_timeoutMs params)
       (Number sys (or_else (process_env sys ''ALFIE_INTEGRATION_SNAPSHOT_TIMEOUT_MS'') ''10000''))"

definition sync_keyringPassword :: "'w sys \<Rightarrow> sync_params \<Rightarrow> string" where
  "sync_keyringPassword sys params =
     (if String_trim sys (or_else (process_env sys ''GOG_KEYRING_PASSWORD'') []) \<noteq> []
      then String_trim sys (or_else (process_env sys ''GOG_KEYRING_PASSWORD'') [])
      else sync_gatewayToken sys params)"

definition cycle_fetch :: "'w sys \<Rightarrow> sync_params \<Rightarrow> error + snapshot option" where
  "cycle_fetch sys params =
     fetchIntegrationSnapshot sys (sync_apiUrl sys params) (sync_gatewayToken sys params)
       (sync_timeoutMs sys params)"

text \<open>The tests of lines 171 to 188 all pass: the cycle goes on to fetch the snapshot.\<close>

definition gates_open :: "'w sys \<Rightarrow> sync_params \<Rightarrow> bool" where
  "gates_open sys params =
     (isTruthyEnvValue sys (process_env sys ''ALFIE_MODE'') \<and> sync_apiUrl sys params \<noteq> []
      \<and> sync_gatewayToken sys params \<noteq> [] \<and> hasBinary sys ''gog'')"

text \<open>The tests of lines 201 to 212 all pass: the cycle goes on to the import loop.\<close>

definition usable :: "'w sys \<Rightarrow> google_integration \<Rightarrow> bool" where
  "usable sys g =
     (configured g \<and> or_else (clientId g) [] \<noteq> [] \<and> or_else (clientSecret g) [] \<noteq> []
      \<and> normalize_accounts sys (accounts g) \<noteq> [])"
section \<open>Concrete inputs\<close>

text \<open>
  The string methods on ASCII strings: TAB, LF, VT, FF, CR and SPACE are white space, and
  \<^verbatim>\<open>A\<close> to \<^verbatim>\<open>Z\<close> have a lower-case form.
\<close>

definition ex_is_white_space :: "char \<Rightarrow> bool" where
  "ex_is_white_space c = (c \<in> set [CHR 0x09, CHR 0x0A, CHR 0x0B, CHR 0x0C, CHR 0x0D, CHR 0x20])"

definition ex_trim :: "string \<Rightarrow> string" where
  "ex_trim s = rev (dropWhile ex_is_white_space (rev (dropWhile ex_is_white_space s)))"

definition ex_toLowerCase_char :: "char \<Rightarrow> char" where
  "ex_toLowerCase_char c =
     (case map_of (zip ''ABCDEFGHIJKLMNOPQRSTUVWXYZ'' ''abcdefghijklmnopqrstuvwxyz'') c of
        Some l \<Rightarrow> l
      | None \<Rightarrow> c)"

definition ex_toLowerCase :: "string \<Rightarrow> string" where
  "ex_toLowerCase s = map ex_toLowerCase_char s"

text \<open>
  A platform with the feature enabled, an API URL and a gateway token configured, the tool on
  the path, a file system that never fails and a tool that accepts every import. Its world
  state counts the commands run.
\<close>

definition ex_sys :: "nat sys" where
  "ex_sys =
     \<lparr>JSON_parse = (\<lambda>s. Inl SyntaxError),
      JSON_stringify = (\<lambda>j. []),
      String_trim = ex_trim,
      String_toLowerCase = ex_toLowerCase,
      fetch = (\<lambda>url auth t. Rejects NetworkError),
      runCommandWithTimeout = (\<lambda>w c. (Suc w, \<lparr>code = Some 0, stdout = [], stderr = []\<rparr>)),
      process_env = map_of [(''ALFIE_MODE'', ''1''), (''ALFIE_API_URL'', ''https://alfie.example/''),
                            (''OPENCLAW_GATEWAY_TOKEN'', ''gw-token'')],
      isTruthyEnvValue = (\<lambda>v. v = Some ''1''),
      hasBinary = (\<lambda>b. True),
      CONFIG_DIR = ''/home/node/.openclaw'',
      Number = (\<lambda>s. if s = ''10000'' then Some 10000 else if s = ''30000'' then Some 30000 else None),
      now_iso = ''2026-01-01T00:00:00.000Z'',
      creds_fs_fails = (\<lambda>s. False),
      state_fs_fails = (\<lambda>s. False)\<rparr>"

definition ex_disk :: disk where
  "ex_disk = \<lparr>state_file = Missing, creds_file = Missing\<rparr>"

definition ex_account_json :: "string \<Rightarrow> string \<Rightarrow> json" where
  "ex_account_json e u =
     JObj [(''id'', JStr ''acct-1''), (''email'', JStr e), (''refreshToken'', JStr ''rt-1''),
           (''scopes'', JNull), (''updatedAtIso'', JStr u)]"

definition ex_other_account_json :: "string \<Rightarrow> string \<Rightarrow> json" where
  "ex_other_account_json e u =
     JObj [(''id'', JStr ''acct-2''), (''email'', JStr e), (''refreshToken'', JStr ''rt-2''),
           (''scopes'', JArr [JStr ''gmail.readonly'']), (''updatedAtIso'', JStr u)]"

definition ex_google_json :: "json list \<Rightarrow> json" where
  "ex_google_json as =
     JObj [(''configured'', JBool True), (''clientId'', JStr ''cid''), (''clientSecret'', JStr ''sec''),
           (''accounts'', JArr as)]"

definition ex_snapshot_json :: "string \<Rightarrow> json list \<Rightarrow> json" where
  "ex_snapshot_json ver as =
     JObj [(''ok'', JBool True), (''tenantId'', JStr ''tenant-1''), (''tenantStatus'', JStr ''active''),
           (''version'', JStr ver), (''integrations'', JObj [(''google'', ex_google_json as)])]"

text \<open>
  A response body with every field of the snapshot data model, but with the google object at
  the top level and without \<^verbatim>\<open>ok\<close>.
\<close>

definition ex_flat_body :: json where
  "ex_flat_body =
     JObj [(''tenantId'', JStr ''tenant-1''), (''tenantStatus'', JStr ''active''), (''version'', JStr ''v1''),
           (''google'', ex_google_json [ex_account_json ''a@x.com'' ''T1''])]"

definition ex_response :: "string \<Rightarrow> response" where
  "ex_response body = \<lparr>res_ok = True, res_status = 200, res_text = Inr body\<rparr>"

text \<open>
  A snapshot that lists the same mailbox twice, with different spelling and different
  \<^verbatim>\<open>updatedAtIso\<close>, served to a tool that accepts the first import and rejects every later one.
\<close>

definition ex_dup_body :: json where
  "ex_dup_body =
     ex_snapshot_json ''v1'' [ex_account_json ''a@x.com'' ''T1'', ex_other_account_json ''A@x.com'' ''T2'']"

definition ex_sys_dup :: "nat sys" where
  "ex_sys_dup =
     ex_sys\<lparr>fetch := (\<lambda>url auth t. Resolves (ex_response ''body'')),
            JSON_parse := (\<lambda>s. if s = ''body'' then Inr ex_dup_body else Inl SyntaxError),
            runCommandWithTimeout :=
              (\<lambda>w c. (Suc w, \<lparr>code = Some (if w = 0 then 0 else 1), stdout = [],
                               stderr = ''invalid_grant''\<rparr>))\<rparr>"

definition ex_account :: "string \<Rightarrow> string \<Rightarrow> google_account" where
  "ex_account e u =
     \<lparr>acct_id = ''acct-1'', email = e, refreshToken = ''rt-1'', scopes = None, updatedAtIso = u\<rparr>"

definition ex_other_account :: "string \<Rightarrow> string \<Rightarrow> google_account" where
  "ex_other_account e u =
     \<lparr>acct_id = ''acct-2'', email = e, refreshToken = ''rt-2'', scopes = Some [''gmail.readonly''],
      updatedAtIso = u\<rparr>"

definition ex_snapshot :: "string \<Rightarrow> google_account list \<Rightarrow> snapshot" where
  "ex_snapshot ver as =
     \<lparr>tenantId = ''tenant-1'', tenantStatus = ''active'', version = ver,
      integrations = \<lparr>google = \<lparr>configured = True, clientId = Some ''cid'',
                                clientSecret = Some ''sec'', accounts = as\<rparr>\<rparr>\<rparr>"

text \<open>A tool that rejects the first import it is given and accepts every later one.\<close>

definition ex_sys_first_fails :: "nat sys" where
  "ex_sys_first_fails =
     ex_sys\<lparr>runCommandWithTimeout :=
              (\<lambda>w c. (Suc w, \<lparr>code = Some (if w = 0 then 1 else 0), stdout = [],
                               stderr = ''invalid_grant''\<rparr>))\<rparr>"

text \<open>
  A state file written earlier: an older version, a watermark for another mailbox, and a
  top-level property the module does not know.
\<close>

definition ex_old_state :: obj where
  "ex_old_state =
     [(''version'', JStr ''v0''),
      (''google'', JObj [(''old@z.com'', JObj [(''updatedAtIso'', JStr ''T0'')])]),
      (''custom'', JNum 7)]"

definition ex_sys_stored :: "nat sys" where
  "ex_sys_stored = ex_sys\<lparr>JSON_parse := (\<lambda>s. if s = ''stored'' then Inr (JObj ex_old_state) else Inl SyntaxError)\<rparr>"

definition ex_disk_stored :: disk where
  "ex_disk_stored = \<lparr>state_file = Content ''stored'', creds_file = Missing\<rparr>"

text \<open>
  A platform that serves one snapshot body and whose codec knows that body and one state: the
  state serializes to a text that parses back to it.
\<close>

definition ex_served :: "json \<Rightarrow> obj \<Rightarrow> nat sys \<Rightarrow> nat sys" where
  "ex_served body st base =
     base\<lparr>fetch := (\<lambda>url auth t. Resolves (ex_response ''body'')),
          JSON_stringify := (\<lambda>j. if j = JObj st then ''state'' else ''other''),
          JSON_parse := (\<lambda>s. if s = ''body'' then Inr body
                              else if s = ''state'' @ [CHR 0x0A] then Inr (JObj st)
                              else Inl SyntaxError)\<rparr>"

definition ex_body_v1 :: json where
  "ex_body_v1 = ex_snapshot_json ''v1'' [ex_account_json ''a@x.com'' ''T1'']"

definition ex_state_imported :: obj where
  "ex_state_imported =
     [(''version'', JStr ''v1''),
      (''google'', JObj [(''a@x.com'', JObj [(''updatedAtIso'', JStr ''T1'')])]),
      (''syncedAtIso'', JStr ''2026-01-01T00:00:00.000Z'')]"

definition ex_state_not_imported :: obj where
  "ex_state_not_imported =
     [(''version'', JStr ''v1''), (''google'', JObj []),
      (''syncedAtIso'', JStr ''2026-01-01T00:00:00.000Z'')]"

text \<open>A tool that rejects every import.\<close>

definition ex_sys_rejecting :: "nat sys" where
  "ex_sys_rejecting =
     ex_sys\<lparr>runCommandWithTimeout :=
              (\<lambda>w c. (Suc w, \<lparr>code = Some 1, stdout = [], stderr = ''invalid_grant''\<rparr>))\<rparr>"

text \<open>Two runs in succession on a platform whose tool accepts every import.\<close>

definition ex_sys_accepting :: "nat sys" where
  "ex_sys_accepting = ex_served ex_body_v1 ex_state_imported ex_sys"

definition ex_first_run :: "nat run" where
  "ex_first_run = syncAlfieIntegrationsOnce ex_sys_accepting no_params 0 ex_disk"

definition ex_second_run :: "nat run" where
  "ex_second_run =
     syncAlfieIntegrationsOnce ex_sys_accepting no_params (run_tool ex_first_run) (run_disk ex_first_run)"

text \<open>The same two runs when the tool rejects every import.\<close>

definition ex_sys_refused :: "nat sys" where
  "ex_sys_refused = ex_served ex_body_v1 ex_state_not_imported ex_sys_rejecting"

definition ex_first_refused_run :: "nat run" where
  "ex_first_refused_run = syncAlfieIntegrationsOnce ex_sys_refused no_params 0 ex_disk"

definition ex_second_refused_run :: "nat run" where
  "ex_second_refused_run =
     syncAlfieIntegrationsOnce ex_sys_refused no_params
       (run_tool ex_first_refused_run) (run_disk ex_first_refused_run)"


text \<open>
  Two consecutive snapshots that spell the email of one mailbox differently, with the same
  \<^verbatim>\<open>updatedAtIso\<close>. The codec knows both bodies and one state; the server answers with the first
  body, and \<open>ex_plain_fetch\<close> is the answer of the server at the next cycle.
\<close>

definition ex_body_spaced :: json where
  "ex_body_spaced = ex_snapshot_json ''v1'' [ex_account_json ''  User@Example.com '' ''T1'']"

definition ex_body_plain :: json where
  "ex_body_plain = ex_snapshot_json ''v1'' [ex_account_json ''user@example.com'' ''T1'']"

definition ex_variants :: "obj \<Rightarrow> nat sys \<Rightarrow> nat sys" where
  "ex_variants st base =
     base\<lparr>fetch := (\<lambda>url auth t. Resolves (ex_response ''spaced'')),
          JSON_stringify := (\<lambda>j. if j = JObj st then ''state'' else ''other''),
          JSON_parse := (\<lambda>s. if s = ''spaced'' then Inr ex_body_spaced
                              else if s = ''plain'' then Inr ex_body_plain
                              else if s = ''state'' @ [CHR 0x0A] then Inr (JObj st)
                              else Inl SyntaxError)\<rparr>"

definition ex_plain_fetch :: "string \<Rightarrow> string \<Rightarrow> number \<Rightarrow> fetch_outcome" where
  "ex_plain_fetch url auth t = Resolves (ex_response ''plain'')"

definition ex_state_user :: obj where
  "ex_state_user =
     [(''version'', JStr ''v1''),
      (''google'', JObj [(''user@example.com'', JObj [(''updatedAtIso'', JStr ''T1'')])]),
      (''syncedAtIso'', JStr ''2026-01-01T00:00:00.000Z'')]"

text \<open>The two cycles when the tool accepts every import.\<close>

definition ex_sys_spaced :: "nat sys" where
  "ex_sys_spaced = ex_variants ex_state_user ex_sys"

definition ex_spaced_run :: "nat run" where
  "ex_spaced_run = syncAlfieIntegrationsOnce ex_sys_spaced no_params 0 ex_disk"

definition ex_plain_run :: "nat run" where
  "ex_plain_run =
     syncAlfieIntegrationsOnce (ex_sys_spaced\<lparr>fetch := ex_plain_fetch\<rparr>) no_params
       (run_tool ex_spaced_run) (run_disk ex_spaced_run)"

text \<open>The same two cycles when the tool rejects every import.\<close>

definition ex_sys_spaced_refused :: "nat sys" where
  "ex_sys_spaced_refused = ex_variants ex_state_not_imported ex_sys_rejecting"

definition ex_spaced_refused_run :: "nat run" where
  "ex_spaced_refused_run = syncAlfieIntegrationsOnce ex_sys_spaced_refused no_params 0 ex_disk"

definition ex_plain_refused_run :: "nat run" where
  "ex_plain_refused_run =
     syncAlfieIntegrationsOnce (ex_sys_spaced_refused\<lparr>fetch := ex_plain_fetch\<rparr>) no_params
       (run_tool ex_spaced_refused_run) (run_disk ex_spaced_refused_run)"

text \<open>
  A snapshot whose one account has the email \<^verbatim>\<open>__proto__\<close>, served to a tool that accepts every
  import, on a disk whose state file already holds the version of the snapshot and an empty
  watermark map.
\<close>

definition ex_body_proto :: json where
  "ex_body_proto = ex_snapshot_json ''v1'' [ex_account_json ''__proto__'' ''T1'']"

definition ex_sys_proto :: "nat sys" where
  "ex_sys_proto = ex_served ex_body_proto ex_state_not_imported ex_sys"

definition ex_disk_proto :: disk where
  "ex_disk_proto = \<lparr>state_file = Content (''state'' @ [CHR 0x0A]), creds_file = Missing\<rparr>"

definition ex_proto_state_read :: "error + obj" where
  "ex_proto_state_read = readState ex_sys_proto ex_disk_proto"

definition ex_proto_run :: "nat run" where
  "ex_proto_run = syncAlfieIntegrationsOnce ex_sys_proto no_params 0 ex_disk_proto"

definition ex_proto_next_run :: "nat run" where
  "ex_proto_next_run =
     syncAlfieIntegrationsOnce ex_sys_proto no_params (run_tool ex_proto_run) (run_disk ex_proto_run)"
section \<open>The import loop\<close>

lemma process_account_unfold:
  "process_account sys x k a st =
     (if up_to_date (googleState st) a then st
      else st\<lparr>tool := fst (importGogRefreshToken sys (tool st) (account_params x k a)),
              googleState :=
                (if snd (importGogRefreshToken sys (tool st) (account_params x k a)) = ImportOk
                 then js_set (googleState st) (email a) (watermark_props a)
                 else googleState st),
              changed := (changed st \<or> snd (importGogRefreshToken sys (tool st) (account_params x k a)) = ImportOk),
              calls := calls st @ [(account_params x k a,
                                    snd (importGogRefreshToken sys (tool st) (account_params x k a)))]\<rparr>)"
proof (cases "up_to_date (googleState st) a")
  case True
  then have c: "(truthy (prev_watermark (googleState st) (email a))
               \<and> prev_watermark (googleState st) (email a) = JStr (updatedAtIso a)) = True"
    unfolding up_to_date_def by (rule eqTrueI)
  show ?thesis
    using True by (simp only: process_account_def Let_def c if_True)
next
  case False
  then have c: "(truthy (prev_watermark (googleState st) (email a))
               \<and> prev_watermark (googleState st) (email a) = JStr (updatedAtIso a)) = False"
    unfolding up_to_date_def by (rule eq_False [THEN iffD2])
  obtain w' r where wr: "importGogRefreshToken sys (tool st) (account_params x k a) = (w', r)"
    by (cases "importGogRefreshToken sys (tool st) (account_params x k a)")
  have "process_account sys x k a st =
          (case r of
             ImportFailed err \<Rightarrow> st\<lparr>tool := w', calls := calls st @ [(account_params x k a, r)]\<rparr>
           | ImportOk \<Rightarrow>
               st\<lparr>tool := w',
                  googleState := js_set (googleState st) (email a) (watermark_props a),
                  changed := True,
                  calls := calls st @ [(account_params x k a, r)]\<rparr>)"
    using wr
    by (simp only: process_account_def Let_def c if_False account_params_def watermark_props_def
          prod.case)
  then show ?thesis
    using False wr by (cases r) simp_all
qed

subsection \<open>Reading and assigning properties\<close>

lemma own_js_set_other:
  "e \<noteq> k \<Longrightarrow> map_of (own_props (js_set ob k p)) e = map_of (own_props ob) e"
  by (simp add: js_set_def update_conv')

lemma own_js_set_keeps:
  "map_of (own_props ob) e = Some v \<Longrightarrow> \<exists>v'. map_of (own_props (js_set ob k p)) e = Some v'"
  by (simp add: js_set_def update_conv')

lemma proto_js_set_other:
  "k \<noteq> ''__proto__'' \<Longrightarrow> proto_props (js_set ob k p) = proto_props ob"
  by (simp add: js_set_def)

lemma js_set_stores:
  "k \<noteq> ''__proto__'' \<or> map_of (own_props ob) k \<noteq> None \<Longrightarrow>
     js_set ob k p = ob\<lparr>own_props := AList.update k (JObj p) (own_props ob)\<rparr>"
  by (auto simp: js_set_def)

lemma js_set_installs:
  "map_of (own_props ob) ''__proto__'' = None \<Longrightarrow>
     js_set ob ''__proto__'' p = ob\<lparr>proto_props := Some p\<rparr>"
  by (simp add: js_set_def)

lemma js_get_set_same: "js_get (js_set ob k p) k = Some (JObj p)"
  by (simp add: js_get_def js_set_def update_conv')

lemma prev_watermark_same_read:
  "js_get gs e = js_get gs' e \<Longrightarrow> prev_watermark gs e = prev_watermark gs' e"
  by (simp add: prev_watermark_def)

lemma up_to_date_same_read:
  "prev_watermark gs (email a) = prev_watermark gs' (email a) \<Longrightarrow> up_to_date gs a = up_to_date gs' a"
  by (simp add: up_to_date_def)

lemma prev_watermark_entry [simp]:
  "js_get gs (email a) = Some (watermark_entry a) \<Longrightarrow> prev_watermark gs (email a) = JStr (updatedAtIso a)"
  by (simp add: prev_watermark_def watermark_entry_def watermark_props_def)

lemma up_to_date_entry:
  "js_get gs (email a) = Some (watermark_entry a) \<Longrightarrow> updatedAtIso a \<noteq> [] \<Longrightarrow> up_to_date gs a"
  by (simp add: up_to_date_def)

lemma not_up_to_date_differs:
  "\<not> up_to_date gs a \<Longrightarrow> updatedAtIso a \<noteq> [] \<Longrightarrow> js_get gs (email a) \<noteq> Some (watermark_entry a)"
  using up_to_date_entry by blast

lemma flat_read_none:
  assumes "list_all (\<lambda>kv. case snd kv of JObj entry \<Rightarrow> False | _ \<Rightarrow> True) pr"
  shows "(case map_of pr e of Some (JObj entry) \<Rightarrow> f entry | _ \<Rightarrow> None) = None"
proof (cases "map_of pr e")
  case None
  then show ?thesis by simp
next
  case (Some v)
  then have "(e, v) \<in> set pr"
    by (rule map_of_SomeD)
  then have "case v of JObj entry \<Rightarrow> False | _ \<Rightarrow> True"
    using assms by (auto simp: list_all_iff)
  then show ?thesis
    using Some by (cases v) simp_all
qed

lemma prev_watermark_own:
  assumes "flat_proto ob" and "e \<noteq> ''__proto__''"
  shows "prev_watermark ob e =
           nullish_or
             (case map_of (own_props ob) e of
                Some (JObj entry) \<Rightarrow> map_of entry ''updatedAtIso''
              | _ \<Rightarrow> None)
             (JStr [])"
proof (cases "map_of (own_props ob) e")
  case (Some v)
  then show ?thesis
    by (simp add: prev_watermark_def js_get_def)
next
  case None
  show ?thesis
  proof (cases "proto_props ob")
    case pn: None
    then show ?thesis
      using None assms(2) by (simp add: prev_watermark_def js_get_def)
  next
    case (Some pr)
    then have "list_all (\<lambda>kv. case snd kv of JObj entry \<Rightarrow> False | _ \<Rightarrow> True) pr"
      using assms(1) by (simp add: flat_proto_def)
    then have "(case map_of pr e of Some (JObj entry) \<Rightarrow> map_of entry ''updatedAtIso'' | _ \<Rightarrow> None) = None"
      by (rule flat_read_none)
    then show ?thesis
      using None Some assms(2) by (simp add: prev_watermark_def js_get_def)
  qed
qed

lemma flat_proto_js_set: "flat_proto ob \<Longrightarrow> flat_proto (js_set ob k (watermark_props a))"
  by (simp add: js_set_def flat_proto_def watermark_props_def)

lemma prev_watermark_js_set_other:
  assumes "flat_proto ob" and "e \<noteq> k"
  shows "prev_watermark (js_set ob k (watermark_props a)) e = prev_watermark ob e"
proof (cases "e = ''__proto__''")
  case True
  then have "k \<noteq> ''__proto__''"
    using assms(2) by simp
  then have "js_get (js_set ob k (watermark_props a)) e = js_get ob e"
    using assms(2) by (simp add: js_get_def js_set_def update_conv' split: option.splits)
  then show ?thesis
    by (rule prev_watermark_same_read)
next
  case False
  have "flat_proto (js_set ob k (watermark_props a))"
    using assms(1) by (rule flat_proto_js_set)
  then show ?thesis
    using assms False by (simp add: prev_watermark_own own_js_set_other)
qed

subsection \<open>One iteration and the whole loop\<close>

lemma sync_loop_append:
  "sync_loop sys x k (xs @ ys) st = sync_loop sys x k ys (sync_loop sys x k xs st)"
  by (induction xs arbitrary: st) simp_all

lemma process_account_flat:
  "flat_proto (googleState st) \<Longrightarrow> flat_proto (googleState (process_account sys x k a st))"
  by (simp add: process_account_unfold flat_proto_js_set)

lemma sync_loop_flat:
  "flat_proto (googleState st) \<Longrightarrow> flat_proto (googleState (sync_loop sys x k xs st))"
  by (induction xs arbitrary: st) (simp_all add: process_account_flat)

lemma process_account_other:
  "e \<noteq> email a \<Longrightarrow>
     map_of (own_props (googleState (process_account sys x k a st))) e
       = map_of (own_props (googleState st)) e"
  by (simp add: process_account_unfold own_js_set_other)

lemma sync_loop_other:
  "e \<notin> email ` set xs \<Longrightarrow>
     map_of (own_props (googleState (sync_loop sys x k xs st))) e = map_of (own_props (googleState st)) e"
  by (induction xs arbitrary: st) (simp_all add: process_account_other)

lemma process_account_proto:
  "email a \<noteq> ''__proto__'' \<Longrightarrow>
     proto_props (googleState (process_account sys x k a st)) = proto_props (googleState st)"
  by (simp add: process_account_unfold proto_js_set_other)

lemma sync_loop_proto:
  "''__proto__'' \<notin> email ` set xs \<Longrightarrow>
     proto_props (googleState (sync_loop sys x k xs st)) = proto_props (googleState st)"
proof (induction xs arbitrary: st)
  case Nil
  show ?case by simp
next
  case (Cons a xs)
  have "email a \<noteq> ''__proto__''" and "''__proto__'' \<notin> email ` set xs"
    using Cons.prems by auto
  then show ?case
    using Cons.IH [of "process_account sys x k a st"] by (simp add: process_account_proto)
qed

lemma process_account_read_other:
  "flat_proto (googleState st) \<Longrightarrow> e \<noteq> email a \<Longrightarrow>
     prev_watermark (googleState (process_account sys x k a st)) e = prev_watermark (googleState st) e"
  by (simp add: process_account_unfold prev_watermark_js_set_other)

lemma sync_loop_read_other:
  "flat_proto (googleState st) \<Longrightarrow> e \<notin> email ` set xs \<Longrightarrow>
     prev_watermark (googleState (sync_loop sys x k xs st)) e = prev_watermark (googleState st) e"
proof (induction xs arbitrary: st)
  case Nil
  show ?case by simp
next
  case (Cons a xs)
  have f: "flat_proto (googleState (process_account sys x k a st))"
    using Cons.prems(1) by (rule process_account_flat)
  have "e \<noteq> email a" and rest: "e \<notin> email ` set xs"
    using Cons.prems(2) by auto
  then have "prev_watermark (googleState (process_account sys x k a st)) e = prev_watermark (googleState st) e"
    using Cons.prems(1) by (intro process_account_read_other)
  moreover have "prev_watermark (googleState (sync_loop sys x k xs (process_account sys x k a st))) e
                 = prev_watermark (googleState (process_account sys x k a st)) e"
    using f rest by (rule Cons.IH)
  ultimately show ?case by simp
qed

lemma process_account_keeps_key:
  "map_of (own_props (googleState st)) e = Some v \<Longrightarrow>
     \<exists>v'. map_of (own_props (googleState (process_account sys x k a st))) e = Some v'"
  by (simp add: process_account_unfold own_js_set_keeps)

lemma sync_loop_keeps_key:
  "map_of (own_props (googleState st)) e = Some v \<Longrightarrow>
     \<exists>v'. map_of (own_props (googleState (sync_loop sys x k xs st))) e = Some v'"
proof (induction xs arbitrary: st v)
  case Nil
  then show ?case by simp
next
  case (Cons a xs)
  obtain v' where "map_of (own_props (googleState (process_account sys x k a st))) e = Some v'"
    using process_account_keeps_key [OF Cons.prems] by blast
  then show ?case
    using Cons.IH by simp
qed

lemma process_account_calls_prefix:
  "\<exists>tr. calls (process_account sys x k a st) = calls st @ tr \<and> (\<forall>c \<in> set tr. ip_email (fst c) = email a)"
  by (simp add: process_account_unfold account_params_def)

lemma sync_loop_calls_prefix:
  "\<exists>tr. calls (sync_loop sys x k xs st) = calls st @ tr \<and> (\<forall>c \<in> set tr. ip_email (fst c) \<in> email ` set xs)"
proof (induction xs arbitrary: st)
  case Nil
  then show ?case by simp
next
  case (Cons a xs)
  obtain t1 where t1: "calls (process_account sys x k a st) = calls st @ t1"
      "\<forall>c \<in> set t1. ip_email (fst c) = email a"
    using process_account_calls_prefix by blast
  obtain t2 where t2: "calls (sync_loop sys x k xs (process_account sys x k a st))
        = calls (process_account sys x k a st) @ t2"
      "\<forall>c \<in> set t2. ip_email (fst c) \<in> email ` set xs"
    using Cons.IH by blast
  have "calls (sync_loop sys x k (a # xs) st) = calls st @ (t1 @ t2)"
    using t1 t2 by simp
  moreover have "\<forall>c \<in> set (t1 @ t2). ip_email (fst c) \<in> email ` set (a # xs)"
    using t1 t2 by auto
  ultimately show ?case by blast
qed

lemma loop_calls_Nil [simp]: "loop_calls sys x k [] st = []"
  by (simp add: loop_calls_def)

lemma calls_loop_calls: "calls (sync_loop sys x k xs st) = calls st @ loop_calls sys x k xs st"
  using sync_loop_calls_prefix [of sys x k xs st] by (auto simp: loop_calls_def)

lemma loop_calls_append:
  "loop_calls sys x k (xs @ ys) st = loop_calls sys x k xs st @ loop_calls sys x k ys (sync_loop sys x k xs st)"
proof -
  have "calls (sync_loop sys x k (xs @ ys) st)
        = (calls st @ loop_calls sys x k xs st) @ loop_calls sys x k ys (sync_loop sys x k xs st)"
    by (simp add: sync_loop_append calls_loop_calls [symmetric])
  then show ?thesis
    by (simp add: loop_calls_def [of sys x k "xs @ ys"])
qed

lemma loop_calls_single:
  "loop_calls sys x k [a] st =
     (if up_to_date (googleState st) a then []
      else [(account_params x k a, snd (importGogRefreshToken sys (tool st) (account_params x k a)))])"
  by (simp add: loop_calls_def process_account_unfold)

lemma loop_calls_emails:
  "c \<in> set (loop_calls sys x k xs st) \<Longrightarrow> ip_email (fst c) \<in> email ` set xs"
  using sync_loop_calls_prefix [of sys x k xs st] by (auto simp: loop_calls_def)

lemma changed_process:
  "changed (process_account sys x k a st) = (changed st \<or> (\<exists>c \<in> set (loop_calls sys x k [a] st). snd c = ImportOk))"
  by (simp add: loop_calls_single) (simp add: process_account_unfold)

lemma changed_sync_loop:
  "changed (sync_loop sys x k xs st) = (changed st \<or> (\<exists>c \<in> set (loop_calls sys x k xs st). snd c = ImportOk))"
proof (induction xs arbitrary: st rule: rev_induct)
  case Nil
  then show ?case by simp
next
  case (snoc a xs)
  have "changed (sync_loop sys x k (xs @ [a]) st) = changed (process_account sys x k a (sync_loop sys x k xs st))"
    by (simp add: sync_loop_append)
  also have "\<dots> = (changed (sync_loop sys x k xs st)
                     \<or> (\<exists>c \<in> set (loop_calls sys x k [a] (sync_loop sys x k xs st)). snd c = ImportOk))"
    by (rule changed_process)
  finally show ?case
    by (auto simp: snoc.IH loop_calls_append)
qed

section \<open>What the schema guarantees about accounts\<close>

lemma schema_requires:
  "AlfieIntegrationSnapshotSchema (Some js) = Some snap \<Longrightarrow>
     \<exists>top ig. js = JObj top \<and> map_of top ''ok'' = Some (JBool True)
        \<and> map_of top ''integrations'' = Some (JObj ig)
        \<and> google_schema (map_of ig ''google'') = Some (google (integrations snap))"
proof -
  assume ok: "AlfieIntegrationSnapshotSchema (Some js) = Some snap"
  then obtain top where top: "js = JObj top"
    by (cases js) (simp_all add: AlfieIntegrationSnapshotSchema_def)
  have lit: "map_of top ''ok'' = Some (JBool True)"
    using ok top
    by (auto simp: AlfieIntegrationSnapshotSchema_def bind_eq_Some_conv
             elim!: z_literal_true.elims)
  obtain ip where ip: "integrations_schema (map_of top ''integrations'') = Some ip"
      and snap: "integrations snap = ip"
    using ok top
    by (auto simp: AlfieIntegrationSnapshotSchema_def bind_eq_Some_conv)
  obtain ig where ig: "map_of top ''integrations'' = Some (JObj ig)"
      and g: "google_schema (map_of ig ''google'') = Some (google ip)"
    using ip
    by (auto simp: integrations_schema_def bind_eq_Some_conv elim!: z_object.elims)
  show ?thesis
    using top lit ig g snap by blast
qed

lemma prev_watermark_stored:
  "prev_watermark gs e = nullish_or (stored_watermark gs e) (JStr [])"
  by (simp add: prev_watermark_def stored_watermark_def)

lemma nullish_or_eq_nonempty:
  "u \<noteq> [] \<Longrightarrow> (nullish_or sw (JStr []) = JStr u) = (sw = Some (JStr u))"
  by (cases "(sw, JStr [])" rule: nullish_or.cases) auto

lemma up_to_date_iff:
  "updatedAtIso a \<noteq> [] \<Longrightarrow>
     up_to_date gs a = (stored_watermark gs (email a) = Some (JStr (updatedAtIso a)))"
  by (auto simp: up_to_date_def prev_watermark_stored nullish_or_eq_nonempty)

lemma those_map_Some:
  "those (map f xs) = Some ys \<Longrightarrow> list_all2 (\<lambda>x y. f x = Some y) xs ys"
proof (induction xs arbitrary: ys)
  case Nil
  then show ?case by simp
next
  case (Cons x xs)
  then show ?case
    by (auto split: option.splits)
qed

lemma z_string_min1_nonempty: "z_string_min1 v = Some s \<Longrightarrow> s \<noteq> []"
  by (auto simp: z_string_min1_def split: option.splits if_splits)

lemma account_schema_nonempty:
  "account_schema v = Some a \<Longrightarrow> updatedAtIso a \<noteq> [] \<and> email a \<noteq> [] \<and> refreshToken a \<noteq> []"
  by (auto simp: account_schema_def bind_eq_Some_conv dest: z_string_min1_nonempty)

lemma google_schema_accounts:
  assumes "google_schema v = Some g" and "a \<in> set (accounts g)"
  shows "updatedAtIso a \<noteq> []"
proof -
  obtain gobj xs where xs: "z_array account_schema (map_of gobj ''accounts'') = Some xs"
      and g: "accounts g = xs"
    using assms(1) by (auto simp: google_schema_def bind_eq_Some_conv)
  then obtain js where "those (map (\<lambda>x. account_schema (Some x)) js) = Some xs"
    by (auto elim!: z_array.elims)
  then have "list_all2 (\<lambda>x y. account_schema (Some x) = Some y) js xs"
    by (rule those_map_Some)
  then obtain j where "account_schema (Some j) = Some a"
    using assms(2) g by (auto simp: in_set_conv_nth list_all2_conv_all_nth)
  then show ?thesis
    by (simp add: account_schema_nonempty)
qed

lemma normalize_accounts_fields:
  "b \<in> set (normalize_accounts sys as) \<Longrightarrow>
     \<exists>a \<in> set as. b = a\<lparr>email := String_toLowerCase sys (String_trim sys (email a))\<rparr>
        \<and> email b \<noteq> []"
  by (auto simp: normalize_accounts_def)

lemma schema_normalized_nonempty:
  assumes "AlfieIntegrationSnapshotSchema (Some js) = Some snap"
    and "a \<in> set (normalize_accounts sys (accounts (google (integrations snap))))"
  shows "updatedAtIso a \<noteq> []"
proof -
  obtain top ig where "google_schema (map_of ig ''google'') = Some (google (integrations snap))"
    using schema_requires [OF assms(1)] by blast
  moreover obtain a0 where "a0 \<in> set (accounts (google (integrations snap)))"
      and "a = a0\<lparr>email := String_toLowerCase sys (String_trim sys (email a0))\<rparr>"
    using normalize_accounts_fields [OF assms(2)] by blast
  ultimately show ?thesis
    using google_schema_accounts by fastforce
qed

section \<open>Reading, looping and persisting\<close>

lemma readState_total: "\<exists>s. readState sys d = Inr s"
  by (cases "state_file d"; cases "JSON_parse sys (case state_file d of Content r \<Rightarrow> r | _ \<Rightarrow> [])")
     (auto simp: readState_def fs_readFile_def)

lemma reconcile_unfold:
  assumes "readState sys d = Inr state"
  shows "reconcile sys snap accts x k w d =
     (if changed (sync_loop sys x k accts (loop_start w state))
          \<or> map_of state ''version'' \<noteq> Some (JStr (version snap))
      then \<lparr>run_raised = fst (writeState sys d
                (next_state sys state snap (googleState (sync_loop sys x k accts (loop_start w state))))),
            run_tool = tool (sync_loop sys x k accts (loop_start w state)),
            run_disk = snd (writeState sys d
                (next_state sys state snap (googleState (sync_loop sys x k accts (loop_start w state))))),
            run_imports = calls (sync_loop sys x k accts (loop_start w state)),
            run_written = Some (next_state sys state snap
                (googleState (sync_loop sys x k accts (loop_start w state))))\<rparr>
      else \<lparr>run_raised = None,
            run_tool = tool (sync_loop sys x k accts (loop_start w state)),
            run_disk = d,
            run_imports = calls (sync_loop sys x k accts (loop_start w state)),
            run_written = None\<rparr>)"
  by (simp add: reconcile_def assms loop_start_def Let_def split: prod.splits)

lemma calls_from_start: "calls (sync_loop sys x k xs (loop_start w state)) = loop_calls sys x k xs (loop_start w state)"
  by (simp add: calls_loop_calls [of sys x k xs "loop_start w state"]) (simp add: loop_start_def)

lemma changed_from_start:
  "changed (sync_loop sys x k xs (loop_start w state))
     = (\<exists>c \<in> set (loop_calls sys x k xs (loop_start w state)). snd c = ImportOk)"
  by (simp add: changed_sync_loop) (simp add: loop_start_def)

lemma next_state_lookup:
  "map_of (next_state sys state snap gs) key =
     (if key = ''syncedAtIso'' then Some (JStr (now_iso sys))
      else if key = ''google'' then Some (JObj (own_props gs))
      else if key = ''version'' then Some (JStr (version snap))
      else map_of state key)"
  by (simp add: next_state_def update_conv')

lemma writeState_ok:
  "fst (writeState sys d next) = None \<Longrightarrow>
     snd (writeState sys d next) = d\<lparr>state_file := Content (JSON_stringify sys (JObj next) @ [CHR 0x0A])\<rparr>"
  by (simp add: writeState_def Let_def split: if_splits)

section \<open>Loops that find every watermark in place\<close>

lemma loop_quiet:
  "\<forall>b \<in> set ys. up_to_date (googleState st) b \<Longrightarrow> sync_loop sys x k ys st = st"
proof (induction ys)
  case Nil
  show ?case by simp
next
  case (Cons y ys)
  have "process_account sys x k y st = st"
    using Cons.prems by (simp add: process_account_unfold)
  moreover have "sync_loop sys x k ys st = st"
    using Cons.prems by (intro Cons.IH) simp
  ultimately show ?case
    by simp
qed

lemma process_account_up_to_date:
  assumes "updatedAtIso a \<noteq> []"
    and "\<forall>c \<in> set (loop_calls sys x k [a] st). snd c = ImportOk"
  shows "up_to_date (googleState (process_account sys x k a st)) a"
proof (cases "up_to_date (googleState st) a")
  case True
  then show ?thesis by (simp add: process_account_unfold)
next
  case False
  then have "snd (importGogRefreshToken sys (tool st) (account_params x k a)) = ImportOk"
    using assms(2) by (simp add: loop_calls_single)
  then have "js_get (googleState (process_account sys x k a st)) (email a) = Some (watermark_entry a)"
    using False by (simp add: process_account_unfold js_get_set_same watermark_entry_def)
  then show ?thesis
    using assms(1) by (rule up_to_date_entry)
qed

lemma up_to_date_same_watermark:
  "email a = email b \<Longrightarrow> updatedAtIso a = updatedAtIso b \<Longrightarrow> up_to_date gs a = up_to_date gs b"
  by (simp add: up_to_date_def)

lemma process_account_keeps_up_to_date:
  assumes "up_to_date (googleState st) b"
    and "flat_proto (googleState st)"
    and "email a = email b \<longrightarrow> updatedAtIso a = updatedAtIso b"
  shows "up_to_date (googleState (process_account sys x k a st)) b"
proof (cases "email a = email b")
  case True
  then have "up_to_date (googleState st) a"
    using assms(1,3) up_to_date_same_watermark [of a b] by simp
  then show ?thesis
    using assms(1) by (simp add: process_account_unfold)
next
  case False
  then have "prev_watermark (googleState (process_account sys x k a st)) (email b)
               = prev_watermark (googleState st) (email b)"
    using assms(2) by (intro process_account_read_other) simp_all
  then have "up_to_date (googleState (process_account sys x k a st)) b = up_to_date (googleState st) b"
    by (rule up_to_date_same_read)
  then show ?thesis
    using assms(1) by simp
qed

lemma consistent_watermarks_iff:
  "consistent_watermarks as = (\<forall>a \<in> set as. \<forall>b \<in> set as. email a = email b \<longrightarrow> updatedAtIso a = updatedAtIso b)"
  by (simp add: consistent_watermarks_def list_all_iff)

lemma all_up_to_date:
  assumes "\<forall>a \<in> set xs. updatedAtIso a \<noteq> []"
    and "consistent_watermarks xs"
    and "\<forall>c \<in> set (loop_calls sys x k xs st). snd c = ImportOk"
    and "flat_proto (googleState st)"
  shows "\<forall>a \<in> set xs. up_to_date (googleState (sync_loop sys x k xs st)) a"
  using assms(1,2,3)
proof (induction xs rule: rev_induct)
  case Nil
  then show ?case by simp
next
  case (snoc y xs)
  let ?mid = "sync_loop sys x k xs st"
  have fin: "sync_loop sys x k (xs @ [y]) st = process_account sys x k y ?mid"
    by (simp add: sync_loop_append)
  have flat: "flat_proto (googleState ?mid)"
    using assms(4) by (rule sync_loop_flat)
  have ok_xs: "\<forall>c \<in> set (loop_calls sys x k xs st). snd c = ImportOk"
    and ok_y: "\<forall>c \<in> set (loop_calls sys x k [y] ?mid). snd c = ImportOk"
    using snoc.prems(3) unfolding loop_calls_append by simp_all
  have ne_y: "updatedAtIso y \<noteq> []" and ne_xs: "\<forall>a \<in> set xs. updatedAtIso a \<noteq> []"
    using snoc.prems(1) by simp_all
  have c_all: "\<forall>a \<in> set (xs @ [y]). \<forall>b \<in> set (xs @ [y]). email a = email b \<longrightarrow> updatedAtIso a = updatedAtIso b"
    using snoc.prems(2) by (simp only: consistent_watermarks_iff)
  have c_xs: "consistent_watermarks xs"
    unfolding consistent_watermarks_iff
  proof (intro ballI impI)
    fix a b
    assume ab: "a \<in> set xs" "b \<in> set xs" and e: "email a = email b"
    have "a \<in> set (xs @ [y])" and "b \<in> set (xs @ [y])"
      using ab by simp_all
    then show "updatedAtIso a = updatedAtIso b"
      using e by (rule c_all [rule_format])
  qed
  have IH: "\<forall>a \<in> set xs. up_to_date (googleState ?mid) a"
    by (rule snoc.IH [OF ne_xs c_xs ok_xs])
  have old: "up_to_date (googleState (process_account sys x k y ?mid)) a" if mem: "a \<in> set xs" for a
  proof -
    have "y \<in> set (xs @ [y])" and "a \<in> set (xs @ [y])"
      using mem by simp_all
    then have "email y = email a \<longrightarrow> updatedAtIso y = updatedAtIso a"
      by (rule c_all [rule_format, THEN impI])
    moreover have "up_to_date (googleState ?mid) a"
      using IH mem by (rule bspec)
    ultimately show ?thesis
      using flat by (intro process_account_keeps_up_to_date)
  qed
  have new: "up_to_date (googleState (process_account sys x k y ?mid)) y"
    using ne_y ok_y by (rule process_account_up_to_date)
  show ?case
    unfolding fin using old new by simp
qed

lemma no_ok_call_unchanged:
  "\<forall>c \<in> set (loop_calls sys x k xs st). snd c \<noteq> ImportOk \<Longrightarrow>
     googleState (sync_loop sys x k xs st) = googleState st"
proof (induction xs rule: rev_induct)
  case Nil
  then show ?case by simp
next
  case (snoc y xs)
  have "googleState (sync_loop sys x k xs st) = googleState st"
    using snoc by (simp add: loop_calls_append)
  moreover have "googleState (process_account sys x k y (sync_loop sys x k xs st))
                 = googleState (sync_loop sys x k xs st)"
    using snoc.prems by (auto simp: loop_calls_append loop_calls_single process_account_unfold split: if_splits)
  ultimately show ?case
    by (simp add: sync_loop_append)
qed

section \<open>A cycle after a cycle\<close>

lemma readState_cong:
  "state_file d = state_file d' \<Longrightarrow> JSON_parse sys = JSON_parse sys' \<Longrightarrow> readState sys d = readState sys' d'"
  by (simp add: readState_def cong: sum.case_cong)

lemma readState_written:
  assumes "state_file d = Content raw" and "JSON_parse sys raw = Inr (JObj kvs)"
  shows "readState sys d = Inr kvs"
  using assms by (simp add: readState_def fs_readFile_def)

lemma googleState_loop_start: "googleState (loop_start w state) = googleState (loop_start w' state)"
  by (simp add: loop_start_def)

lemma reconcile_no_imports:
  assumes "readState sys d = Inr state"
    and "\<forall>a \<in> set accts. up_to_date (googleState (loop_start w state)) a"
  shows "run_imports (reconcile sys snap accts x k w d) = []"
proof -
  have "sync_loop sys x k accts (loop_start w state) = loop_start w state"
    using assms(2) by (rule loop_quiet)
  then show ?thesis
    unfolding reconcile_unfold [OF assms(1)] by (simp add: loop_start_def)
qed

lemma reconcile_quiet:
  assumes "readState sys d = Inr state"
    and "\<forall>a \<in> set accts. up_to_date (googleState (loop_start w state)) a"
    and "map_of state ''version'' = Some (JStr (version snap))"
  shows "reconcile sys snap accts x k w d =
           \<lparr>run_raised = None, run_tool = w, run_disk = d, run_imports = [], run_written = None\<rparr>"
proof -
  have "sync_loop sys x k accts (loop_start w state) = loop_start w state"
    using assms(2) by (rule loop_quiet)
  then show ?thesis
    unfolding reconcile_unfold [OF assms(1)] using assms(3) by (simp add: loop_start_def)
qed

lemma reconcile_after:
  assumes ne: "\<forall>a \<in> set accts. updatedAtIso a \<noteq> []"
    and cons: "consistent_watermarks accts"
    and plain: "''__proto__'' \<notin> email ` set accts"
    and r1: "r1 = reconcile sys snap accts x k w d"
    and raised: "run_raised r1 = None"
    and ok: "\<forall>c \<in> set (run_imports r1). snd c = ImportOk"
    and rt: "\<forall>nx. run_written r1 = Some nx \<longrightarrow>
               JSON_parse sys (JSON_stringify sys (JObj nx) @ [CHR 0x0A]) = Inr (JObj nx)"
  shows "\<exists>state'. readState sys (run_disk r1) = Inr state'
           \<and> (\<forall>a \<in> set accts. up_to_date (googleState (loop_start w2 state')) a)
           \<and> map_of state' ''version'' = Some (JStr (version snap))
           \<and> (run_imports r1 \<noteq> [] \<longrightarrow> run_written r1 = Some state')"
proof -
  obtain state where rs: "readState sys d = Inr state"
    using readState_total by blast
  let ?st0 = "loop_start w state"
  let ?stF = "sync_loop sys x k accts ?st0"
  let ?nx = "next_state sys state snap (googleState ?stF)"
  note r = r1 [unfolded reconcile_unfold [OF rs]]
  have imps: "run_imports r1 = loop_calls sys x k accts ?st0"
    unfolding r by (simp add: calls_from_start)
  have all_ok: "\<forall>c \<in> set (loop_calls sys x k accts ?st0). snd c = ImportOk"
    using ok unfolding imps .
  have flat: "flat_proto (googleState ?st0)"
    by (simp add: loop_start_def flat_proto_def)
  have utd: "\<forall>a \<in> set accts. up_to_date (googleState ?stF) a"
    using ne cons all_ok flat by (rule all_up_to_date)
  have "proto_props (googleState ?stF) = proto_props (googleState ?st0)"
    using plain by (rule sync_loop_proto)
  then have proto: "proto_props (googleState ?stF) = None"
    by (simp add: loop_start_def)
  show ?thesis
  proof (cases "changed ?stF \<or> map_of state ''version'' \<noteq> Some (JStr (version snap))")
    case True
    have w: "run_written r1 = Some ?nx" and e: "run_raised r1 = fst (writeState sys d ?nx)"
      and dk: "run_disk r1 = snd (writeState sys d ?nx)"
      unfolding r using True by simp_all
    have "fst (writeState sys d ?nx) = None"
      using raised e by simp
    then have "state_file (run_disk r1) = Content (JSON_stringify sys (JObj ?nx) @ [CHR 0x0A])"
      unfolding dk by (simp add: writeState_ok)
    moreover have "JSON_parse sys (JSON_stringify sys (JObj ?nx) @ [CHR 0x0A]) = Inr (JObj ?nx)"
      using rt w by blast
    ultimately have rs2: "readState sys (run_disk r1) = Inr ?nx"
      by (rule readState_written)
    have g: "googleState (loop_start w2 ?nx) = googleState ?stF"
      using proto by (simp add: loop_start_def next_state_lookup)
    have v: "map_of ?nx ''version'' = Some (JStr (version snap))"
      by (simp add: next_state_lookup)
    have "\<forall>a \<in> set accts. up_to_date (googleState (loop_start w2 ?nx)) a"
      using utd by (simp only: g)
    then show ?thesis
      using rs2 v w by blast
  next
    case False
    have dk: "run_disk r1 = d"
      unfolding r using False by simp
    have "\<not> changed ?stF"
      using False by simp
    then have none_ok: "\<forall>c \<in> set (loop_calls sys x k accts ?st0). snd c \<noteq> ImportOk"
      unfolding changed_from_start by simp
    then have "googleState ?stF = googleState ?st0"
      by (rule no_ok_call_unchanged)
    then have g: "googleState ?stF = googleState (loop_start w2 state)"
      by (simp add: loop_start_def)
    have v: "map_of state ''version'' = Some (JStr (version snap))"
      using False by simp
    have "\<forall>a \<in> set accts. up_to_date (googleState (loop_start w2 state)) a"
      using utd by (simp only: g)
    moreover have "run_imports r1 = []"
    proof (cases "run_imports r1")
      case Nil
      then show ?thesis .
    next
      case (Cons c cs)
      then have "c \<in> set (loop_calls sys x k accts ?st0)"
        unfolding imps by simp
      then show ?thesis
        using all_ok none_ok by blast
    qed
    ultimately show ?thesis
      using rs v dk by simp
  qed
qed

lemma fetched_valid:
  "fetchIntegrationSnapshot sys u tok t = Inr (Some snap) \<Longrightarrow>
     \<exists>js. AlfieIntegrationSnapshotSchema (Some js) = Some snap"
  by (auto simp: fetchIntegrationSnapshot_def split: fetch_outcome.splits sum.splits if_splits option.splits)

lemma ensure_creds_state_file:
  "state_file (snd (ensureGogClientCredentials sys d x cid cs)) = state_file d"
  by (simp add: ensureGogClientCredentials_def Let_def)

lemma ensure_creds_fst:
  "creds_fs_fails sys' = creds_fs_fails sys \<Longrightarrow>
     fst (ensureGogClientCredentials sys' d' x' cid' cs') = fst (ensureGogClientCredentials sys d x cid cs)"
  by (simp add: ensureGogClientCredentials_def Let_def)

lemma sync_unfold:
  "syncAlfieIntegrationsOnce sys params w d =
     (if \<not> gates_open sys params then idle w d
      else
        (case cycle_fetch sys params of
           Inl e \<Rightarrow> (idle w d)\<lparr>run_raised := Some e\<rparr>
         | Inr None \<Rightarrow> idle w d
         | Inr (Some snap) \<Rightarrow>
             if \<not> usable sys (google (integrations snap)) then idle w d
             else
               (case ensureGogClientCredentials sys d (resolveXdgConfigHome sys)
                       (or_else (clientId (google (integrations snap))) [])
                       (or_else (clientSecret (google (integrations snap))) []) of
                  (Some e, d') \<Rightarrow> (idle w d')\<lparr>run_raised := Some e\<rparr>
                | (None, d') \<Rightarrow>
                    reconcile sys snap (normalize_accounts sys (accounts (google (integrations snap))))
                      (resolveXdgConfigHome sys) (sync_keyringPassword sys params) w d')))"
  by (auto simp: syncAlfieIntegrationsOnce_def gates_open_def cycle_fetch_def usable_def
        sync_apiUrl_def sync_gatewayToken_def sync_timeoutMs_def sync_keyringPassword_def Let_def
      split: sum.splits option.splits prod.splits)

lemma sync_stops:
  assumes "\<not> (gates_open sys params
              \<and> (\<exists>snap. cycle_fetch sys params = Inr (Some snap) \<and> usable sys (google (integrations snap))))"
  shows "run_imports (syncAlfieIntegrationsOnce sys params w d) = []
       \<and> run_written (syncAlfieIntegrationsOnce sys params w d) = None
       \<and> run_disk (syncAlfieIntegrationsOnce sys params w d) = d
       \<and> run_raised (syncAlfieIntegrationsOnce sys params w d)
           = (if gates_open sys params then (case cycle_fetch sys params of Inl e \<Rightarrow> Some e | _ \<Rightarrow> None)
              else None)"
  using assms unfolding sync_unfold
  by (auto simp: idle_def split: sum.splits option.splits)

lemma sync_goes:
  assumes "gates_open sys params" and "cycle_fetch sys params = Inr (Some snap)"
    and "usable sys (google (integrations snap))"
  shows "syncAlfieIntegrationsOnce sys params w d =
           (case fst (ensureGogClientCredentials sys d (resolveXdgConfigHome sys)
                       (or_else (clientId (google (integrations snap))) [])
                       (or_else (clientSecret (google (integrations snap))) [])) of
              Some e \<Rightarrow>
                (idle w (snd (ensureGogClientCredentials sys d (resolveXdgConfigHome sys)
                       (or_else (clientId (google (integrations snap))) [])
                       (or_else (clientSecret (google (integrations snap))) []))))\<lparr>run_raised := Some e\<rparr>
            | None \<Rightarrow>
                reconcile sys snap (normalize_accounts sys (accounts (google (integrations snap))))
                  (resolveXdgConfigHome sys) (sync_keyringPassword sys params) w
                  (snd (ensureGogClientCredentials sys d (resolveXdgConfigHome sys)
                       (or_else (clientId (google (integrations snap))) [])
                       (or_else (clientSecret (google (integrations snap))) []))))"
  unfolding sync_unfold using assms by (simp split: prod.splits option.splits)

lemma other_fetch [simp]:
  "gates_open (sys\<lparr>fetch := f\<rparr>) params = gates_open sys params"
  "usable (sys\<lparr>fetch := f\<rparr>) g = usable sys g"
  "normalize_accounts (sys\<lparr>fetch := f\<rparr>) as = normalize_accounts sys as"
  by (simp_all add: gates_open_def usable_def normalize_accounts_def sync_apiUrl_def sync_gatewayToken_def)

lemma second_cycle:
  assumes go: "gates_open sys params"
    and s1: "cycle_fetch sys params = Inr (Some snap)"
    and us: "usable sys (google (integrations snap))"
    and r1: "r1 = syncAlfieIntegrationsOnce sys params w d"
    and raised: "run_raised r1 = None"
    and ok: "\<forall>c \<in> set (run_imports r1). snd c = ImportOk"
    and cons: "consistent_watermarks (normalize_accounts sys (accounts (google (integrations snap))))"
    and plain: "''__proto__'' \<notin> email ` set (normalize_accounts sys (accounts (google (integrations snap))))"
    and rt: "\<forall>nx. run_written r1 = Some nx \<longrightarrow>
               JSON_parse sys (JSON_stringify sys (JObj nx) @ [CHR 0x0A]) = Inr (JObj nx)"
  shows "\<exists>state'. readState sys (run_disk r1) = Inr state'
           \<and> (\<forall>a \<in> set (normalize_accounts sys (accounts (google (integrations snap)))).
                 up_to_date (googleState (loop_start w2 state')) a)
           \<and> map_of state' ''version'' = Some (JStr (version snap))
           \<and> (run_imports r1 \<noteq> [] \<longrightarrow> run_written r1 = Some state')
           \<and> fst (ensureGogClientCredentials sys d (resolveXdgConfigHome sys)
                     (or_else (clientId (google (integrations snap))) [])
                     (or_else (clientSecret (google (integrations snap))) [])) = None"
proof -
  let ?accts = "normalize_accounts sys (accounts (google (integrations snap)))"
  let ?E = "ensureGogClientCredentials sys d (resolveXdgConfigHome sys)
              (or_else (clientId (google (integrations snap))) [])
              (or_else (clientSecret (google (integrations snap))) [])"
  note S = sync_goes [OF go s1 us, of w d]
  have en: "fst ?E = None"
  proof (cases "fst ?E")
    case None
    then show ?thesis .
  next
    case (Some e)
    then have "run_raised r1 = Some e"
      unfolding r1 S by (simp add: idle_def)
    then show ?thesis
      using raised by simp
  qed
  have e1: "r1 = reconcile sys snap ?accts (resolveXdgConfigHome sys) (sync_keyringPassword sys params) w (snd ?E)"
    unfolding r1 S using en by simp
  obtain js where js: "AlfieIntegrationSnapshotSchema (Some js) = Some snap"
    using fetched_valid [OF s1 [unfolded cycle_fetch_def]] by blast
  have ne: "\<forall>a \<in> set ?accts. updatedAtIso a \<noteq> []"
    using schema_normalized_nonempty [OF js] by blast
  show ?thesis
    using reconcile_after [OF ne cons plain e1 raised ok rt, of w2] en by blast
qed

section \<open>Local state store: reading never fails\<close>

text \<open>
  C7. \<^verbatim>\<open>readState\<close> never raises: whatever the file system and the parser do, it returns a state.
  It returns the empty state when the file is missing, when it cannot be read, when its content
  is not valid JSON and when the content parses to a value that is not an object; an object is
  returned as it is.
\<close>

theorem readState_never_fails:
  "(\<exists>s. readState sys d = Inr s)
   \<and> (state_file d = Missing \<longrightarrow> readState sys d = Inr [])
   \<and> (state_file d = Unreadable \<longrightarrow> readState sys d = Inr [])
   \<and> (\<forall>raw e. state_file d = Content raw \<and> JSON_parse sys raw = Inl e \<longrightarrow> readState sys d = Inr [])
   \<and> (\<forall>raw v. state_file d = Content raw \<and> JSON_parse sys raw = Inr v \<and> (\<forall>kvs. v \<noteq> JObj kvs)
         \<longrightarrow> readState sys d = Inr [])
   \<and> (\<forall>raw kvs. state_file d = Content raw \<and> JSON_parse sys raw = Inr (JObj kvs)
         \<longrightarrow> readState sys d = Inr kvs)"
proof -
  have nonobj: "readState sys d = Inr []"
    if "state_file d = Content raw" "JSON_parse sys raw = Inr v" "\<forall>kvs. v \<noteq> JObj kvs" for raw v
    using that by (cases v) (simp_all add: readState_def fs_readFile_def)
  show ?thesis
    using readState_total [of sys d] nonobj
    by (auto simp: readState_def fs_readFile_def)
qed

theorem readState_never_fails_witness:
  "readState ex_sys \<lparr>state_file = Missing, creds_file = Missing\<rparr> = Inr []
   \<and> readState ex_sys \<lparr>state_file = Unreadable, creds_file = Missing\<rparr> = Inr []
   \<and> readState ex_sys \<lparr>state_file = Content ''{oops'', creds_file = Missing\<rparr> = Inr []
   \<and> readState (ex_sys\<lparr>JSON_parse := (\<lambda>s. Inr (JArr [JNum 1]))\<rparr>)
        \<lparr>state_file = Content ''[1]'', creds_file = Missing\<rparr> = Inr []
   \<and> readState (ex_sys\<lparr>JSON_parse := (\<lambda>s. Inr (JObj [(''version'', JStr ''v1'')]))\<rparr>)
        \<lparr>state_file = Content ''{version: v1}'', creds_file = Missing\<rparr> = Inr [(''version'', JStr ''v1'')]"
  using readState_never_fails [of ex_sys "\<lparr>state_file = Missing, creds_file = Missing\<rparr>"]
        readState_never_fails [of ex_sys "\<lparr>state_file = Unreadable, creds_file = Missing\<rparr>"]
        readState_never_fails [of ex_sys "\<lparr>state_file = Content ''{oops'', creds_file = Missing\<rparr>"]
        readState_never_fails [of "ex_sys\<lparr>JSON_parse := (\<lambda>s. Inr (JArr [JNum 1]))\<rparr>"
            "\<lparr>state_file = Content ''[1]'', creds_file = Missing\<rparr>"]
        readState_never_fails [of "ex_sys\<lparr>JSON_parse := (\<lambda>s. Inr (JObj [(''version'', JStr ''v1'')]))\<rparr>"
            "\<lparr>state_file = Content ''{version: v1}'', creds_file = Missing\<rparr>"]
  by (simp add: ex_sys_def)

section \<open>Snapshot fetcher: which failures are raised and which give no snapshot\<close>

text \<open>
  A request that times out is a rejected \<^verbatim>\<open>fetch\<close>. The fetcher does not turn it into
  \<^verbatim>\<open>null\<close>: the rejection leaves the fetcher as an exception.
\<close>

theorem fetch_timeout_counterexample:
  "fetch (ex_sys\<lparr>fetch := (\<lambda>url auth t. Rejects TimeoutError)\<rparr>)
       (snapshot_url (ex_sys\<lparr>fetch := (\<lambda>url auth t. Rejects TimeoutError)\<rparr>) ''https://alfie.example/'') (''Bearer '' @ ''gw-token'') (Some 10000)
     = Rejects TimeoutError
   \<and> fetchIntegrationSnapshot (ex_sys\<lparr>fetch := (\<lambda>url auth t. Rejects TimeoutError)\<rparr>)
       ''https://alfie.example/'' ''gw-token'' (Some 10000) = Inl TimeoutError
   \<and> fetchIntegrationSnapshot (ex_sys\<lparr>fetch := (\<lambda>url auth t. Rejects TimeoutError)\<rparr>)
       ''https://alfie.example/'' ''gw-token'' (Some 10000) \<noteq> Inr None"
  by (simp add: fetchIntegrationSnapshot_def ex_sys_def)

text \<open>
  C1, as the code has it. A rejected request (time-out, network failure) and a body that cannot
  be read are raised to the caller of \<^verbatim>\<open>fetchIntegrationSnapshot\<close>. Once the body has been read
  the fetcher always returns: no snapshot for a status outside 2xx, for a body that is not JSON
  and for a body that fails the schema, and the validated snapshot otherwise.
\<close>

theorem fetch_failure_is_raised:
  "(fetch sys (snapshot_url sys apiUrl) (''Bearer '' @ gatewayToken) timeoutMs = Rejects e
      \<longrightarrow> fetchIntegrationSnapshot sys apiUrl gatewayToken timeoutMs = Inl e)
   \<and> (fetch sys (snapshot_url sys apiUrl) (''Bearer '' @ gatewayToken) timeoutMs = Resolves res
        \<and> res_text res = Inl e
      \<longrightarrow> fetchIntegrationSnapshot sys apiUrl gatewayToken timeoutMs = Inl e)
   \<and> (fetch sys (snapshot_url sys apiUrl) (''Bearer '' @ gatewayToken) timeoutMs = Resolves res
        \<and> res_text res = Inr body
      \<longrightarrow> fetchIntegrationSnapshot sys apiUrl gatewayToken timeoutMs =
            Inr (if \<not> res_ok res then None
                 else case JSON_parse sys body of
                        Inl err \<Rightarrow> None
                      | Inr js \<Rightarrow> AlfieIntegrationSnapshotSchema (Some js)))"
  by (auto simp: fetchIntegrationSnapshot_def split: sum.splits option.splits)

theorem fetch_failure_is_raised_witness:
  "fetchIntegrationSnapshot (ex_sys\<lparr>fetch := (\<lambda>url auth t. Rejects TimeoutError)\<rparr>)
       ''https://alfie.example/'' ''gw-token'' (Some 10000) = Inl TimeoutError
   \<and> fetchIntegrationSnapshot
        (ex_sys\<lparr>fetch := (\<lambda>url auth t. Resolves \<lparr>res_ok = True, res_status = 200, res_text = Inl BodyReadError\<rparr>)\<rparr>)
        ''https://alfie.example/'' ''gw-token'' (Some 10000) = Inl BodyReadError
   \<and> fetchIntegrationSnapshot
        (ex_sys\<lparr>fetch := (\<lambda>url auth t. Resolves \<lparr>res_ok = False, res_status = 503, res_text = Inr ''busy''\<rparr>)\<rparr>)
        ''https://alfie.example/'' ''gw-token'' (Some 10000) = Inr None"
  using fetch_failure_is_raised
          [of "ex_sys\<lparr>fetch := (\<lambda>url auth t. Rejects TimeoutError)\<rparr>"
              "''https://alfie.example/''" "''gw-token''" "Some 10000" TimeoutError]
        fetch_failure_is_raised
          [of "ex_sys\<lparr>fetch := (\<lambda>url auth t. Resolves \<lparr>res_ok = True, res_status = 200, res_text = Inl BodyReadError\<rparr>)\<rparr>"
              "''https://alfie.example/''" "''gw-token''" "Some 10000" BodyReadError
              "\<lparr>res_ok = True, res_status = 200, res_text = Inl BodyReadError\<rparr>"]
        fetch_failure_is_raised
          [of "ex_sys\<lparr>fetch := (\<lambda>url auth t. Resolves \<lparr>res_ok = False, res_status = 503, res_text = Inr ''busy''\<rparr>)\<rparr>"
              "''https://alfie.example/''" "''gw-token''" "Some 10000" NetworkError
              "\<lparr>res_ok = False, res_status = 503, res_text = Inr ''busy''\<rparr>" "''busy''"]
  by (simp add: ex_sys_def)

section \<open>Snapshot schema: the ok flag and the integrations object\<close>

text \<open>
  C9. A body passes \<^verbatim>\<open>AlfieIntegrationSnapshotSchema\<close> only if it is an object whose \<^verbatim>\<open>ok\<close> is the
  literal \<^verbatim>\<open>true\<close> and whose \<^verbatim>\<open>integrations\<close> is an object holding a valid \<^verbatim>\<open>google\<close> object.
  So for every response whose body lacks \<^verbatim>\<open>ok: true\<close>, or has no \<^verbatim>\<open>integrations\<close> property (the
  google object being at the top level, say), the fetcher returns no snapshot, whatever else the
  body contains.
\<close>

theorem snapshot_needs_ok_and_integrations:
  "(AlfieIntegrationSnapshotSchema (Some js) = Some snap \<longrightarrow>
      (\<exists>top ig. js = JObj top \<and> map_of top ''ok'' = Some (JBool True)
         \<and> map_of top ''integrations'' = Some (JObj ig)
         \<and> google_schema (map_of ig ''google'') = Some (google (integrations snap))))
   \<and> (fetch sys (snapshot_url sys apiUrl) (''Bearer '' @ gatewayToken) timeoutMs = Resolves res
        \<and> res_text res = Inr body \<and> JSON_parse sys body = Inr js
        \<and> (\<forall>top. js = JObj top \<longrightarrow>
               map_of top ''ok'' \<noteq> Some (JBool True) \<or> map_of top ''integrations'' = None)
      \<longrightarrow> fetchIntegrationSnapshot sys apiUrl gatewayToken timeoutMs = Inr None)"
proof -
  have "AlfieIntegrationSnapshotSchema (Some js) = None"
    if "\<forall>top. js = JObj top \<longrightarrow>
               map_of top ''ok'' \<noteq> Some (JBool True) \<or> map_of top ''integrations'' = None"
  proof (cases "AlfieIntegrationSnapshotSchema (Some js)")
    case None
    then show ?thesis .
  next
    case (Some s)
    from schema_requires [OF Some] that show ?thesis by auto
  qed
  then show ?thesis
    using schema_requires [of js snap]
    by (auto simp: fetchIntegrationSnapshot_def)
qed

theorem snapshot_needs_ok_and_integrations_witness:
  "AlfieIntegrationSnapshotSchema (Some (ex_snapshot_json ''v1'' [ex_account_json ''a@x.com'' ''T1'']))
     = Some \<lparr>tenantId = ''tenant-1'', tenantStatus = ''active'', version = ''v1'',
             integrations = \<lparr>google = \<lparr>configured = True, clientId = Some ''cid'',
               clientSecret = Some ''sec'',
               accounts = [\<lparr>acct_id = ''acct-1'', email = ''a@x.com'', refreshToken = ''rt-1'',
                            scopes = None, updatedAtIso = ''T1''\<rparr>]\<rparr>\<rparr>\<rparr>
   \<and> google_schema (map_of [(''google'', ex_google_json [ex_account_json ''a@x.com'' ''T1''])] ''google'')
       = Some \<lparr>configured = True, clientId = Some ''cid'', clientSecret = Some ''sec'',
               accounts = [\<lparr>acct_id = ''acct-1'', email = ''a@x.com'', refreshToken = ''rt-1'',
                            scopes = None, updatedAtIso = ''T1''\<rparr>]\<rparr>
   \<and> google_schema (Some (ex_google_json [ex_account_json ''a@x.com'' ''T1'']))
       = Some \<lparr>configured = True, clientId = Some ''cid'', clientSecret = Some ''sec'',
               accounts = [\<lparr>acct_id = ''acct-1'', email = ''a@x.com'', refreshToken = ''rt-1'',
                            scopes = None, updatedAtIso = ''T1''\<rparr>]\<rparr>
   \<and> fetchIntegrationSnapshot
        (ex_sys\<lparr>fetch := (\<lambda>url auth t. Resolves (ex_response ''flat'')),
                JSON_parse := (\<lambda>s. Inr ex_flat_body)\<rparr>)
        ''https://alfie.example/'' ''gw-token'' (Some 10000) = Inr None"
  using snapshot_needs_ok_and_integrations
          [of "ex_snapshot_json ''v1'' [ex_account_json ''a@x.com'' ''T1'']"
              "\<lparr>tenantId = ''tenant-1'', tenantStatus = ''active'', version = ''v1'',
                integrations = \<lparr>google = \<lparr>configured = True, clientId = Some ''cid'',
                  clientSecret = Some ''sec'',
                  accounts = [\<lparr>acct_id = ''acct-1'', email = ''a@x.com'', refreshToken = ''rt-1'',
                               scopes = None, updatedAtIso = ''T1''\<rparr>]\<rparr>\<rparr>\<rparr>"
              "ex_sys\<lparr>fetch := (\<lambda>url auth t. Resolves (ex_response ''flat'')),
                      JSON_parse := (\<lambda>s. Inr ex_flat_body)\<rparr>"
              "''https://alfie.example/''" "''gw-token''" "Some 10000"
              "ex_response ''flat''" "''flat''"]
        snapshot_needs_ok_and_integrations
          [of ex_flat_body
              "\<lparr>tenantId = ''tenant-1'', tenantStatus = ''active'', version = ''v1'',
                integrations = \<lparr>google = \<lparr>configured = True, clientId = Some ''cid'',
                  clientSecret = Some ''sec'', accounts = []\<rparr>\<rparr>\<rparr>"
              "ex_sys\<lparr>fetch := (\<lambda>url auth t. Resolves (ex_response ''flat'')),
                      JSON_parse := (\<lambda>s. Inr ex_flat_body)\<rparr>"
              "''https://alfie.example/''" "''gw-token''" "Some 10000"
              "ex_response ''flat''" "''flat''"]
  by (simp add: ex_sys_def ex_response_def ex_flat_body_def ex_snapshot_json_def ex_google_json_def
        ex_account_json_def AlfieIntegrationSnapshotSchema_def integrations_schema_def
        google_schema_def account_schema_def z_string_min1_def)

section \<open>Scheduler: every tick starts a cycle\<close>

lemma timer_sched_step [simp]: "timer (sched_step sc ev) = timer sc"
  by (cases ev) (simp_all split: option.splits)

lemma timer_sched_run [simp]: "timer (sched_run sc evs) = timer sc"
  unfolding sched_run_def by (induction evs arbitrary: sc) simp_all

lemma sched_run_Cons: "sched_run sc (ev # evs) = sched_run (sched_step sc ev) evs"
  by (simp add: sched_run_def)

lemma started_sched_run:
  "timer sc = Some ms \<Longrightarrow> started (sched_run sc evs) = started sc + count_list evs Tick"
proof (induction evs arbitrary: sc)
  case Nil
  then show ?case by (simp add: sched_run_def)
next
  case (Cons ev evs)
  have "timer (sched_step sc ev) = Some ms"
    using Cons.prems by simp
  then have "started (sched_run (sched_step sc ev) evs) = started (sched_step sc ev) + count_list evs Tick"
    by (rule Cons.IH)
  then show ?case
    using Cons.prems by (cases ev) (simp_all add: sched_run_Cons)
qed

lemma in_flight_ticks:
  "timer sc = Some ms \<Longrightarrow> in_flight (sched_run sc (replicate n Tick)) = in_flight sc + n"
proof (induction n arbitrary: sc)
  case 0
  then show ?case by (simp add: sched_run_def)
next
  case (Suc n)
  have "timer (sched_step sc Tick) = Some ms"
    using Suc.prems by simp
  then have "in_flight (sched_run (sched_step sc Tick) (replicate n Tick)) = in_flight (sched_step sc Tick) + n"
    by (rule Suc.IH)
  then show ?case
    using Suc.prems by (simp add: sched_run_Cons)
qed

lemma overlap_second_tick:
  "timer sc = Some ms \<Longrightarrow> overlapped (sched_run sc [Tick, Tick])"
  by (simp add: sched_run_def)

lemma sched_run_snoc: "sched_run sc (evs @ [ev]) = sched_step (sched_run sc evs) ev"
  by (simp add: sched_run_def)

lemma tick_split:
  "(xs @ [y] = pre @ Tick # post)
     = ((post = [] \<and> pre = xs \<and> y = Tick) \<or> (\<exists>post'. post = post' @ [y] \<and> xs = pre @ Tick # post'))"
  by (cases post rule: rev_cases) auto

lemma overlapped_sched_run:
  assumes "timer sc = Some ms"
  shows "overlapped (sched_run sc evs)
           = (overlapped sc \<or> (\<exists>pre post. evs = pre @ Tick # post \<and> 0 < in_flight (sched_run sc pre)))"
proof (induction evs rule: rev_induct)
  case Nil
  show ?case by (simp add: sched_run_def)
next
  case (snoc ev evs)
  have armed: "timer (sched_run sc evs) = Some ms"
    using assms by simp
  have step: "overlapped (sched_step (sched_run sc evs) ev)
                = (overlapped (sched_run sc evs) \<or> (ev = Tick \<and> 0 < in_flight (sched_run sc evs)))"
    using armed by (cases ev) simp_all
  have "overlapped (sched_run sc (evs @ [ev]))
          = (overlapped sc
             \<or> (\<exists>pre post. evs = pre @ Tick # post \<and> 0 < in_flight (sched_run sc pre))
             \<or> (ev = Tick \<and> 0 < in_flight (sched_run sc evs)))"
    unfolding sched_run_snoc step snoc.IH by blast
  also have "\<dots> = (overlapped sc
             \<or> (\<exists>pre post. evs @ [ev] = pre @ Tick # post \<and> 0 < in_flight (sched_run sc pre)))"
    unfolding tick_split by blast
  finally show ?case .
qed

lemma tick_always_starts:
  assumes "timer sc = Some ms"
  shows "in_flight (sched_run sc (evs @ [Tick])) = in_flight (sched_run sc evs) + 1"
proof -
  have "timer (sched_run sc evs) = Some ms"
    using assms by simp
  then show ?thesis
    by (simp add: sched_run_snoc)
qed

lemma start_arms_timer:
  "isTruthyEnvValue sys (process_env sys ''ALFIE_MODE'') \<Longrightarrow>
     \<exists>ms. timer (snd (snd (startAlfieIntegrationSyncIfEnabled sys w d))) = Some ms
        \<and> in_flight (snd (snd (startAlfieIntegrationSyncIfEnabled sys w d))) = 0
        \<and> started (snd (snd (startAlfieIntegrationSyncIfEnabled sys w d))) = 1
        \<and> \<not> overlapped (snd (snd (startAlfieIntegrationSyncIfEnabled sys w d)))"
  by (simp add: startAlfieIntegrationSyncIfEnabled_def Let_def)

text \<open>
  Two ticks with no cycle settling in between: the second tick starts a cycle while the first
  is still in flight, and two cycles are in flight.
\<close>

theorem scheduler_overlap_counterexample:
  "overlapped (sched_run (snd (snd (startAlfieIntegrationSyncIfEnabled ex_sys 0 ex_disk))) [Tick, Tick])
   \<and> in_flight (sched_run (snd (snd (startAlfieIntegrationSyncIfEnabled ex_sys 0 ex_disk))) [Tick, Tick]) = 2
   \<and> started (sched_run (snd (snd (startAlfieIntegrationSyncIfEnabled ex_sys 0 ex_disk))) [Tick, Tick]) = 3"
  by (simp add: startAlfieIntegrationSyncIfEnabled_def Let_def sched_run_def ex_sys_def or_else_def)

text \<open>
  C2, as the code has it. With the feature enabled, the scheduler awaits the first cycle and
  only then arms the timer, so no cycle is in flight at that point. From then on, after any
  sequence of ticks and settlings: every tick has started a cycle (none was skipped); a further
  tick starts one more cycle on top of those in flight, however many there are; and a cycle was
  started while another was in flight exactly if some tick came when the cycles started before
  it had not all settled. In particular \<open>n\<close> ticks in a row leave \<open>n\<close> cycles in flight.
\<close>

theorem scheduler_starts_cycle_on_every_tick:
  assumes "isTruthyEnvValue sys (process_env sys ''ALFIE_MODE'')"
    and "sc = snd (snd (startAlfieIntegrationSyncIfEnabled sys w d))"
  shows "in_flight sc = 0 \<and> \<not> overlapped sc
         \<and> started (sched_run sc evs) = 1 + count_list evs Tick
         \<and> in_flight (sched_run sc (evs @ [Tick])) = in_flight (sched_run sc evs) + 1
         \<and> overlapped (sched_run sc evs)
             = (\<exists>pre post. evs = pre @ Tick # post \<and> 0 < in_flight (sched_run sc pre))
         \<and> in_flight (sched_run sc (replicate n Tick)) = n"
proof -
  obtain ms where ms: "timer sc = Some ms" and z: "in_flight sc = 0" "started sc = 1" "\<not> overlapped sc"
    using start_arms_timer [OF assms(1), of w d] assms(2) by auto
  show ?thesis
    using z started_sched_run [OF ms, of evs] in_flight_ticks [OF ms, of n]
      tick_always_starts [OF ms, of evs] overlapped_sched_run [OF ms, of evs]
    by simp
qed

theorem scheduler_starts_cycle_on_every_tick_witness:
  "isTruthyEnvValue ex_sys (process_env ex_sys ''ALFIE_MODE'')
   \<and> started (sched_run (snd (snd (startAlfieIntegrationSyncIfEnabled ex_sys 0 ex_disk))) [Tick, Settle, Tick, Tick])
       = 4
   \<and> overlapped (sched_run (snd (snd (startAlfieIntegrationSyncIfEnabled ex_sys 0 ex_disk))) [Tick, Settle, Tick, Tick])
   \<and> in_flight (sched_run (snd (snd (startAlfieIntegrationSyncIfEnabled ex_sys 0 ex_disk))) (replicate 3 Tick))
       = 3"
proof -
  let ?sc = "snd (snd (startAlfieIntegrationSyncIfEnabled ex_sys 0 ex_disk))"
  have h: "isTruthyEnvValue ex_sys (process_env ex_sys ''ALFIE_MODE'')"
    by (simp add: ex_sys_def)
  note t = scheduler_starts_cycle_on_every_tick [OF h refl, of 0 ex_disk "[Tick, Settle, Tick, Tick]" 3]
  have busy: "0 < in_flight (sched_run ?sc [Tick, Settle, Tick])"
    using h by (simp add: startAlfieIntegrationSyncIfEnabled_def Let_def sched_run_def)
  have "[Tick, Settle, Tick, Tick] = [Tick, Settle, Tick] @ Tick # [] \<and> 0 < in_flight (sched_run ?sc [Tick, Settle, Tick])"
    using busy by simp
  then have ex: "\<exists>pre post. [Tick, Settle, Tick, Tick] = pre @ Tick # post \<and> 0 < in_flight (sched_run ?sc pre)"
    by blast
  have ov: "overlapped (sched_run ?sc [Tick, Settle, Tick, Tick])"
    using t ex by blast
  show ?thesis
    using h t ov by simp
qed

section \<open>The import decision\<close>

text \<open>
  C6. For every account of a validated snapshot, after normalization, and for every state in
  which the loop reaches it: if the watermark stored for its email is the string
  \<^verbatim>\<open>updatedAtIso\<close> of the account, the iteration changes nothing and the importer is not
  called; if the stored watermark is anything else, or there is none, the importer is called
  once, with the parameters of that account. The comparison is equality of strings. The loop
  reaches every account of the list, in order.
\<close>

theorem import_decided_by_string_equality:
  assumes "AlfieIntegrationSnapshotSchema (Some js) = Some snap"
    and "a \<in> set (normalize_accounts sys (accounts (google (integrations snap))))"
  shows "(stored_watermark (googleState st) (email a) = Some (JStr (updatedAtIso a))
            \<longrightarrow> process_account sys x k a st = st)
       \<and> (stored_watermark (googleState st) (email a) \<noteq> Some (JStr (updatedAtIso a))
            \<longrightarrow> calls (process_account sys x k a st)
                 = calls st @ [(account_params x k a,
                                snd (importGogRefreshToken sys (tool st) (account_params x k a)))])
       \<and> (js_get (googleState st) (email a) = None
            \<longrightarrow> stored_watermark (googleState st) (email a) = None)
       \<and> (map_of (own_props (googleState st)) (email a) = None \<and> proto_props (googleState st) = None
            \<longrightarrow> stored_watermark (googleState st) (email a) = None)
       \<and> sync_loop sys x k (pre @ a # post) st0
           = sync_loop sys x k post (process_account sys x k a (sync_loop sys x k pre st0))"
proof -
  have ne: "updatedAtIso a \<noteq> []"
    using assms by (rule schema_normalized_nonempty)
  show ?thesis
    by (simp add: process_account_unfold up_to_date_iff [OF ne] sync_loop_append stored_watermark_def
          js_get_def)
qed

theorem import_decided_by_string_equality_witness:
  "AlfieIntegrationSnapshotSchema (Some (ex_snapshot_json ''v1'' [ex_account_json '' User@Example.com '' ''T1'']))
     = Some (ex_snapshot ''v1'' [ex_account '' User@Example.com '' ''T1''])
   \<and> ex_account ''user@example.com'' ''T1''
       \<in> set (normalize_accounts ex_sys
                (accounts (google (integrations (ex_snapshot ''v1'' [ex_account '' User@Example.com '' ''T1''])))))
   \<and> process_account ex_sys ''/cfg'' ''pw'' (ex_account ''user@example.com'' ''T1'')
        \<lparr>tool = 0, googleState = \<lparr>own_props = [(''user@example.com'', JObj [(''updatedAtIso'', JStr ''T1'')])],
                        proto_props = None\<rparr>,
         changed = False, calls = []\<rparr>
       = \<lparr>tool = 0, googleState = \<lparr>own_props = [(''user@example.com'', JObj [(''updatedAtIso'', JStr ''T1'')])],
                        proto_props = None\<rparr>,
          changed = False, calls = []\<rparr>
   \<and> calls (process_account ex_sys ''/cfg'' ''pw'' (ex_account ''user@example.com'' ''T1'')
        \<lparr>tool = 0, googleState = \<lparr>own_props = [(''user@example.com'', JObj [(''updatedAtIso'', JStr ''T0'')])],
                        proto_props = None\<rparr>,
         changed = False, calls = []\<rparr>)
       = [] @ [(account_params ''/cfg'' ''pw'' (ex_account ''user@example.com'' ''T1''),
           snd (importGogRefreshToken ex_sys
                  (tool \<lparr>tool = 0, googleState = \<lparr>own_props = [(''user@example.com'', JObj [(''updatedAtIso'', JStr ''T0'')])],
                        proto_props = None\<rparr>,
                         changed = False, calls = []\<rparr>)
                  (account_params ''/cfg'' ''pw'' (ex_account ''user@example.com'' ''T1''))))]"
proof -
  let ?a = "ex_account ''user@example.com'' ''T1''"
  let ?same = "\<lparr>tool = 0::nat, googleState = \<lparr>own_props = [(''user@example.com'', JObj [(''updatedAtIso'', JStr ''T1'')])],
                        proto_props = None\<rparr>,
                changed = False, calls = []\<rparr>"
  let ?older = "\<lparr>tool = 0::nat, googleState = \<lparr>own_props = [(''user@example.com'', JObj [(''updatedAtIso'', JStr ''T0'')])],
                        proto_props = None\<rparr>,
                changed = False, calls = []\<rparr>"
  have h1: "AlfieIntegrationSnapshotSchema (Some (ex_snapshot_json ''v1'' [ex_account_json '' User@Example.com '' ''T1'']))
     = Some (ex_snapshot ''v1'' [ex_account '' User@Example.com '' ''T1''])"
    by code_simp
  have h2: "?a \<in> set (normalize_accounts ex_sys
                (accounts (google (integrations (ex_snapshot ''v1'' [ex_account '' User@Example.com '' ''T1''])))))"
    by code_simp
  have s1: "stored_watermark (googleState ?same) (email ?a) = Some (JStr (updatedAtIso ?a))"
    by code_simp
  have s2: "stored_watermark (googleState ?older) (email ?a) \<noteq> Some (JStr (updatedAtIso ?a))"
    by code_simp
  have t1: "process_account ex_sys ''/cfg'' ''pw'' ?a ?same = ?same"
    using import_decided_by_string_equality [OF h1 h2, of ?same "''/cfg''" "''pw''"] s1
    by blast
  have t2: "calls (process_account ex_sys ''/cfg'' ''pw'' ?a ?older)
       = calls ?older @ [(account_params ''/cfg'' ''pw'' ?a,
           snd (importGogRefreshToken ex_sys (tool ?older) (account_params ''/cfg'' ''pw'' ?a)))]"
    using import_decided_by_string_equality [OF h1 h2, of ?older "''/cfg''" "''pw''"] s2
    by blast
  have c0: "calls ?older = []"
    by simp
  show ?thesis
    using h1 h2 t1 t2 unfolding c0 by (intro conjI)
qed

section \<open>Failed imports and the other accounts\<close>

lemma loop_calls_other:
  "e \<notin> email ` set xs \<Longrightarrow> filter (\<lambda>c. ip_email (fst c) = e) (loop_calls sys x k xs st) = []"
  using loop_calls_emails [of _ sys x k xs st] by (auto simp: filter_empty_conv)

lemma occurs_once_split:
  assumes "filter (\<lambda>b. email b = email a) xs = [a]"
  shows "\<exists>pre post. xs = pre @ a # post \<and> email a \<notin> email ` set pre \<and> email a \<notin> email ` set post"
proof -
  obtain pre post where xs: "xs = pre @ a # post"
      and pre: "\<forall>u \<in> set pre. email u \<noteq> email a"
      and post: "[] = filter (\<lambda>b. email b = email a) post"
    using assms unfolding filter_eq_Cons_iff by blast
  have "\<forall>v \<in> set post. email v \<noteq> email a"
    using post [symmetric] by (simp add: filter_empty_conv)
  then show ?thesis
    using xs pre by (intro exI [of _ pre] exI [of _ post]) auto
qed

lemma loop_single_account:
  assumes "filter (\<lambda>b. email b = email a) xs = [a]" and "flat_proto (googleState st)"
  shows "\<exists>st'. filter (\<lambda>c. ip_email (fst c) = email a) (loop_calls sys x k xs st)
                  = loop_calls sys x k [a] st'
             \<and> up_to_date (googleState st') a = up_to_date (googleState st) a
             \<and> map_of (own_props (googleState st')) (email a) = map_of (own_props (googleState st)) (email a)
             \<and> map_of (own_props (googleState (sync_loop sys x k xs st))) (email a)
                  = map_of (own_props (googleState (process_account sys x k a st'))) (email a)"
proof -
  obtain pre post where xs: "xs = pre @ a # post"
      and pre: "email a \<notin> email ` set pre" and post: "email a \<notin> email ` set post"
    using occurs_once_split [OF assms(1)] by blast
  let ?st' = "sync_loop sys x k pre st"
  have l: "sync_loop sys x k xs st = sync_loop sys x k post (process_account sys x k a ?st')"
    by (simp add: xs sync_loop_append)
  have c: "loop_calls sys x k xs st
            = loop_calls sys x k pre st @ loop_calls sys x k [a] ?st'
              @ loop_calls sys x k post (sync_loop sys x k [a] ?st')"
    unfolding xs
    using loop_calls_append [of sys x k pre "a # post" st]
          loop_calls_append [of sys x k "[a]" post ?st']
    by simp
  have f: "filter (\<lambda>c. ip_email (fst c) = email a) (loop_calls sys x k [a] ?st') = loop_calls sys x k [a] ?st'"
    by (simp add: loop_calls_single account_params_def)
  have "filter (\<lambda>c. ip_email (fst c) = email a) (loop_calls sys x k xs st) = loop_calls sys x k [a] ?st'"
    by (simp add: c f loop_calls_other [OF pre] loop_calls_other [OF post])
  moreover have "prev_watermark (googleState ?st') (email a) = prev_watermark (googleState st) (email a)"
    using assms(2) pre by (rule sync_loop_read_other)
  then have "up_to_date (googleState ?st') a = up_to_date (googleState st) a"
    by (rule up_to_date_same_read)
  moreover have "map_of (own_props (googleState ?st')) (email a) = map_of (own_props (googleState st)) (email a)"
    using pre by (rule sync_loop_other)
  moreover have "map_of (own_props (googleState (sync_loop sys x k xs st))) (email a)
                  = map_of (own_props (googleState (process_account sys x k a ?st'))) (email a)"
    unfolding l using post by (rule sync_loop_other)
  ultimately show ?thesis by blast
qed

lemma flat_loop_start: "flat_proto (googleState (loop_start w state))"
  by (simp add: loop_start_def flat_proto_def)

text \<open>
  The snapshot lists one mailbox twice. The import of the first entry succeeds and the import
  of the second fails; no watermark was stored before the cycle, yet the state handed to
  \<^verbatim>\<open>writeState\<close> holds the watermark of the first entry for that mailbox.
\<close>

theorem failed_import_counterexample:
  "readState ex_sys_dup ex_disk = Inr []
   \<and> run_imports (syncAlfieIntegrationsOnce ex_sys_dup no_params 0 ex_disk)
       = [(account_params ''/home/node/.openclaw'' ''gw-token'' (ex_account ''a@x.com'' ''T1''), ImportOk),
          (account_params ''/home/node/.openclaw'' ''gw-token'' (ex_other_account ''a@x.com'' ''T2''),
           ImportFailed ''invalid_grant'')]
   \<and> run_written (syncAlfieIntegrationsOnce ex_sys_dup no_params 0 ex_disk)
       = Some [(''version'', JStr ''v1''),
               (''google'', JObj [(''a@x.com'', JObj [(''updatedAtIso'', JStr ''T1'')])]),
               (''syncedAtIso'', JStr ''2026-01-01T00:00:00.000Z'')]"
  by code_simp

text \<open>
  C3, as the code has it. Take the loop of one cycle, started from the state that was read, and
  an account \<open>a\<close> of the normalized list whose email no other entry of the list has; the other
  emails may repeat. Whatever happened to the accounts before it, the importer is called for
  \<open>a\<close> exactly once when its \<^verbatim>\<open>updatedAtIso\<close> is not the stored watermark, and not at all when
  it is. If \<open>a\<close> was skipped or its import failed, the entry of the watermark map under its email
  is what it was before the loop (absent if it was absent). If its import succeeded and its
  email is not the property name \<^verbatim>\<open>__proto__\<close>, the entry is the \<^verbatim>\<open>updatedAtIso\<close> of \<open>a\<close>.
\<close>

theorem failed_import_keeps_watermark:
  assumes "filter (\<lambda>b. email b = email a) accts = [a]"
    and "st = loop_start w state"
  shows "\<exists>r. filter (\<lambda>c. ip_email (fst c) = email a) (loop_calls sys x k accts st)
                = (if up_to_date (googleState st) a then [] else [(account_params x k a, r)])
           \<and> (up_to_date (googleState st) a \<or> r \<noteq> ImportOk \<longrightarrow>
                map_of (own_props (googleState (sync_loop sys x k accts st))) (email a)
                  = map_of (own_props (googleState st)) (email a))
           \<and> (\<not> up_to_date (googleState st) a \<and> r = ImportOk \<and> email a \<noteq> ''__proto__'' \<longrightarrow>
                map_of (own_props (googleState (sync_loop sys x k accts st))) (email a)
                  = Some (watermark_entry a))"
proof -
  have flat: "flat_proto (googleState st)"
    unfolding assms(2) by (rule flat_loop_start)
  obtain st' where f: "filter (\<lambda>c. ip_email (fst c) = email a) (loop_calls sys x k accts st)
                  = loop_calls sys x k [a] st'"
      and u: "up_to_date (googleState st') a = up_to_date (googleState st) a"
      and g: "map_of (own_props (googleState st')) (email a) = map_of (own_props (googleState st)) (email a)"
      and h: "map_of (own_props (googleState (sync_loop sys x k accts st))) (email a)
                  = map_of (own_props (googleState (process_account sys x k a st'))) (email a)"
    using loop_single_account [OF assms(1) flat] by blast
  let ?r = "snd (importGogRefreshToken sys (tool st') (account_params x k a))"
  have c1: "filter (\<lambda>c. ip_email (fst c) = email a) (loop_calls sys x k accts st)
                = (if up_to_date (googleState st) a then [] else [(account_params x k a, ?r)])"
    by (simp add: f loop_calls_single u)
  have c2: "map_of (own_props (googleState (sync_loop sys x k accts st))) (email a)
                  = map_of (own_props (googleState st)) (email a)"
    if "up_to_date (googleState st) a \<or> ?r \<noteq> ImportOk"
    using that by (auto simp: h process_account_unfold u g)
  have c3: "map_of (own_props (googleState (sync_loop sys x k accts st))) (email a) = Some (watermark_entry a)"
    if "\<not> up_to_date (googleState st) a \<and> ?r = ImportOk \<and> email a \<noteq> ''__proto__''"
    using that by (simp add: h process_account_unfold u js_set_stores update_conv' watermark_entry_def)
  show ?thesis
    using c1 c2 c3 by blast
qed

theorem failed_import_keeps_watermark_witness:
  "filter (\<lambda>b. email b = email (ex_account ''a@x.com'' ''T1''))
      [ex_account ''a@x.com'' ''T1'', ex_other_account ''b@y.com'' ''T3'', ex_other_account ''b@y.com'' ''T4'']
     = [ex_account ''a@x.com'' ''T1'']
   \<and> filter (\<lambda>c. ip_email (fst c) = ''a@x.com'')
        (loop_calls ex_sys_first_fails ''/cfg'' ''pw''
           [ex_account ''a@x.com'' ''T1'', ex_other_account ''b@y.com'' ''T3'', ex_other_account ''b@y.com'' ''T4'']
           (loop_start 0 []))
       = [(account_params ''/cfg'' ''pw'' (ex_account ''a@x.com'' ''T1''), ImportFailed ''invalid_grant'')]
   \<and> map_of (own_props (googleState (sync_loop ex_sys_first_fails ''/cfg'' ''pw''
           [ex_account ''a@x.com'' ''T1'', ex_other_account ''b@y.com'' ''T3'', ex_other_account ''b@y.com'' ''T4'']
           (loop_start 0 []))))
        (email (ex_account ''a@x.com'' ''T1''))
       = map_of (own_props (googleState (loop_start (0::nat) []))) (email (ex_account ''a@x.com'' ''T1''))
   \<and> map_of (own_props (googleState (sync_loop ex_sys_first_fails ''/cfg'' ''pw''
           [ex_account ''a@x.com'' ''T1'', ex_other_account ''b@y.com'' ''T3'', ex_other_account ''b@y.com'' ''T4'']
           (loop_start 0 []))))
        ''b@y.com''
       = Some (JObj [(''updatedAtIso'', JStr ''T4'')])"
proof -
  let ?A = "ex_account ''a@x.com'' ''T1''"
  let ?xs = "[?A, ex_other_account ''b@y.com'' ''T3'', ex_other_account ''b@y.com'' ''T4'']"
  let ?st = "loop_start (0::nat) []"
  have h1: "filter (\<lambda>b. email b = email ?A) ?xs = [?A]"
    by code_simp
  have stale: "\<not> up_to_date (googleState ?st) ?A"
    by code_simp
  have e1: "filter (\<lambda>c. ip_email (fst c) = ''a@x.com'') (loop_calls ex_sys_first_fails ''/cfg'' ''pw'' ?xs ?st)
       = [(account_params ''/cfg'' ''pw'' ?A, ImportFailed ''invalid_grant'')]"
    by code_simp
  have em: "email ?A = ''a@x.com''"
    by (simp add: ex_account_def)
  obtain r where r1: "filter (\<lambda>c. ip_email (fst c) = email ?A) (loop_calls ex_sys_first_fails ''/cfg'' ''pw'' ?xs ?st)
                = (if up_to_date (googleState ?st) ?A then [] else [(account_params ''/cfg'' ''pw'' ?A, r)])"
      and r2: "up_to_date (googleState ?st) ?A \<or> r \<noteq> ImportOk \<longrightarrow>
                map_of (own_props (googleState (sync_loop ex_sys_first_fails ''/cfg'' ''pw'' ?xs ?st))) (email ?A)
                  = map_of (own_props (googleState ?st)) (email ?A)"
    using failed_import_keeps_watermark [OF h1 refl, of ex_sys_first_fails "''/cfg''" "''pw''" 0 "[]"]
    by blast
  have "[(account_params ''/cfg'' ''pw'' ?A, r)]
          = [(account_params ''/cfg'' ''pw'' ?A, ImportFailed ''invalid_grant'')]"
    using r1 stale e1 unfolding em by (simp only: if_False)
  then have "r \<noteq> ImportOk"
    by simp
  then have e2: "map_of (own_props (googleState (sync_loop ex_sys_first_fails ''/cfg'' ''pw'' ?xs ?st))) (email ?A)
                  = map_of (own_props (googleState ?st)) (email ?A)"
    using r2 by simp
  have e3: "map_of (own_props (googleState (sync_loop ex_sys_first_fails ''/cfg'' ''pw'' ?xs ?st))) ''b@y.com''
       = Some (JObj [(''updatedAtIso'', JStr ''T4'')])"
    by code_simp
  show ?thesis
    by (intro conjI h1 e1 e2 e3)
qed

section \<open>When the state file is written, and what is written\<close>

text \<open>
  C4 at an account whose email is \<^verbatim>\<open>__proto__\<close>. The state file holds the version of the
  snapshot and an empty watermark map; the snapshot has one account, with the email
  \<^verbatim>\<open>__proto__\<close>, and the tool accepts its import. The assignment of line 244 then installs a
  prototype instead of storing a property: the cycle calls \<^verbatim>\<open>writeState\<close> although the version
  is the stored one and the watermark map to persist is the empty map it was, and the state
  written holds no watermark for the account just imported. The next cycle, against the same
  snapshot, imports the account and writes the state again.
\<close>

theorem proto_email_is_rewritten:
  "ex_proto_state_read = Inr ex_state_not_imported
   \<and> run_raised ex_proto_run = None
   \<and> run_imports ex_proto_run
       = [(account_params ''/home/node/.openclaw'' ''gw-token'' (ex_account ''__proto__'' ''T1''), ImportOk)]
   \<and> run_written ex_proto_run = Some ex_state_not_imported
   \<and> state_file (run_disk ex_proto_run) = state_file ex_disk_proto
   \<and> run_imports ex_proto_next_run
       = [(account_params ''/home/node/.openclaw'' ''gw-token'' (ex_account ''__proto__'' ''T1''), ImportOk)]
   \<and> run_written ex_proto_next_run = Some ex_state_not_imported"
  by code_simp

section \<open>What a write leaves as it was\<close>

text \<open>
  C10. Whenever a cycle hands a state to \<^verbatim>\<open>writeState\<close>, its \<^verbatim>\<open>google\<close> property is an
  object in which every key of the watermark map read at the start of the cycle is still
  present, with the value it had unless the key is the normalized email of an account of the
  snapshot; and every top-level property of the state read, other than \<^verbatim>\<open>version\<close>,
  \<^verbatim>\<open>google\<close> and \<^verbatim>\<open>syncedAtIso\<close>, is carried over unchanged.
\<close>

theorem persist_preserves_rest:
  assumes "readState sys d = Inr state"
    and "run_written (reconcile sys snap accts x k w d) = Some next"
  shows "(\<exists>gs. map_of next ''google'' = Some (JObj gs)
            \<and> (\<forall>e v. map_of (spread (nullish_or (map_of state ''google'') (JObj []))) e = Some v
                  \<longrightarrow> (\<exists>v'. map_of gs e = Some v' \<and> (e \<notin> email ` set accts \<longrightarrow> v' = v))))
       \<and> (\<forall>key. key \<noteq> ''version'' \<and> key \<noteq> ''google'' \<and> key \<noteq> ''syncedAtIso''
              \<longrightarrow> map_of next key = map_of state key)"
proof -
  let ?st = "sync_loop sys x k accts (loop_start w state)"
  have nx: "next = next_state sys state snap (googleState ?st)"
    using assms(2) unfolding reconcile_unfold [OF assms(1)] by (simp split: if_splits)
  have g0: "own_props (googleState (loop_start w state))
              = spread (nullish_or (map_of state ''google'') (JObj []))"
    by (simp add: loop_start_def)
  have keep: "\<exists>v'. map_of (own_props (googleState ?st)) e = Some v' \<and> (e \<notin> email ` set accts \<longrightarrow> v' = v)"
    if "map_of (spread (nullish_or (map_of state ''google'') (JObj []))) e = Some v" for e v
  proof -
    have s: "map_of (own_props (googleState (loop_start w state))) e = Some v"
      using that by (simp add: g0)
    obtain v' where v': "map_of (own_props (googleState ?st)) e = Some v'"
      using sync_loop_keeps_key [OF s] by blast
    have "v' = v" if "e \<notin> email ` set accts"
      using sync_loop_other [OF that, of sys x k "loop_start w state"] s v' by simp
    then show ?thesis
      using v' by blast
  qed
  show ?thesis
    using keep by (simp add: nx next_state_lookup)
qed

theorem persist_preserves_rest_witness:
  "readState ex_sys_stored ex_disk_stored = Inr ex_old_state
   \<and> run_written (reconcile ex_sys_stored (ex_snapshot ''v1'' []) [ex_account ''a@x.com'' ''T1'']
                    ''/cfg'' ''pw'' 0 ex_disk_stored)
       = Some [(''version'', JStr ''v1''),
               (''google'', JObj [(''old@z.com'', JObj [(''updatedAtIso'', JStr ''T0'')]),
                                  (''a@x.com'', JObj [(''updatedAtIso'', JStr ''T1'')])]),
               (''custom'', JNum 7),
               (''syncedAtIso'', JStr ''2026-01-01T00:00:00.000Z'')]
   \<and> map_of [(''version'', JStr ''v1''),
               (''google'', JObj [(''old@z.com'', JObj [(''updatedAtIso'', JStr ''T0'')]),
                                  (''a@x.com'', JObj [(''updatedAtIso'', JStr ''T1'')])]),
               (''custom'', JNum 7),
               (''syncedAtIso'', JStr ''2026-01-01T00:00:00.000Z'')] ''custom''
       = map_of ex_old_state ''custom''"
proof -
  have h1: "readState ex_sys_stored ex_disk_stored = Inr ex_old_state"
    by code_simp
  have h2: "run_written (reconcile ex_sys_stored (ex_snapshot ''v1'' []) [ex_account ''a@x.com'' ''T1'']
                    ''/cfg'' ''pw'' 0 ex_disk_stored)
       = Some [(''version'', JStr ''v1''),
               (''google'', JObj [(''old@z.com'', JObj [(''updatedAtIso'', JStr ''T0'')]),
                                  (''a@x.com'', JObj [(''updatedAtIso'', JStr ''T1'')])]),
               (''custom'', JNum 7),
               (''syncedAtIso'', JStr ''2026-01-01T00:00:00.000Z'')]"
    by code_simp
  have k: "''custom'' \<noteq> ''version'' \<and> ''custom'' \<noteq> ''google'' \<and> ''custom'' \<noteq> ''syncedAtIso''"
    by simp
  have c: "map_of [(''version'', JStr ''v1''),
               (''google'', JObj [(''old@z.com'', JObj [(''updatedAtIso'', JStr ''T0'')]),
                                  (''a@x.com'', JObj [(''updatedAtIso'', JStr ''T1'')])]),
               (''custom'', JNum 7),
               (''syncedAtIso'', JStr ''2026-01-01T00:00:00.000Z'')] ''custom''
       = map_of ex_old_state ''custom''"
    by (rule persist_preserves_rest [OF h1 h2, THEN conjunct2, rule_format, OF k])
  show ?thesis
    by (intro conjI h1 h2 c)
qed

section \<open>Running the cycle twice\<close>

text \<open>
  The tool rejects the import of the first run. The first run raises nothing and writes the
  state (the version is new); the second run, against the same snapshot, reads that state back
  and calls the importer again for the same account.
\<close>

theorem second_run_counterexample:
  "run_raised ex_first_refused_run = None
   \<and> run_written ex_first_refused_run = Some ex_state_not_imported
   \<and> readState ex_sys_refused (run_disk ex_first_refused_run) = Inr ex_state_not_imported
   \<and> run_imports ex_second_refused_run
       = [(account_params ''/home/node/.openclaw'' ''gw-token'' (ex_account ''a@x.com'' ''T1''),
           ImportFailed ''invalid_grant'')]"
  by code_simp

text \<open>
  C5, as the code has it. Run the cycle twice in succession on the same platform, so against the
  same snapshot, the second run from the tool and the disk the first one left. If the first run
  raised nothing, every import it made succeeded, the entries of the snapshot that share a
  normalized email share their \<^verbatim>\<open>updatedAtIso\<close>, no normalized email of the snapshot is the
  property name \<^verbatim>\<open>__proto__\<close>, and the state the first run wrote parses back from its
  serialization, then the second run calls the importer not once, does not call
  \<^verbatim>\<open>writeState\<close>, raises nothing and leaves the state file as the first run left it.
\<close>

theorem second_run_is_quiet:
  assumes r1: "r1 = syncAlfieIntegrationsOnce sys params w d"
    and r2: "r2 = syncAlfieIntegrationsOnce sys params (run_tool r1) (run_disk r1)"
    and raised: "run_raised r1 = None"
    and ok: "\<forall>c \<in> set (run_imports r1). snd c = ImportOk"
    and cons: "\<forall>snap. cycle_fetch sys params = Inr (Some snap) \<longrightarrow>
                 consistent_watermarks (normalize_accounts sys (accounts (google (integrations snap))))"
    and plain: "\<forall>snap. cycle_fetch sys params = Inr (Some snap) \<longrightarrow>
                 ''__proto__'' \<notin> email ` set (normalize_accounts sys (accounts (google (integrations snap))))"
    and rt: "\<forall>nx. run_written r1 = Some nx \<longrightarrow>
               JSON_parse sys (JSON_stringify sys (JObj nx) @ [CHR 0x0A]) = Inr (JObj nx)"
  shows "run_imports r2 = [] \<and> run_written r2 = None \<and> run_raised r2 = None
         \<and> state_file (run_disk r2) = state_file (run_disk r1)"
proof (cases "gates_open sys params
              \<and> (\<exists>snap. cycle_fetch sys params = Inr (Some snap) \<and> usable sys (google (integrations snap)))")
  case False
  note st1 = sync_stops [OF False, of w d] and st2 = sync_stops [OF False, of "run_tool r1" "run_disk r1"]
  let ?e = "if gates_open sys params then (case cycle_fetch sys params of Inl e \<Rightarrow> Some e | _ \<Rightarrow> None)
            else None"
  have "run_raised r1 = ?e"
    unfolding r1 using st1 by blast
  moreover have "run_raised r2 = ?e"
    unfolding r2 using st2 by blast
  ultimately have "run_raised r2 = None"
    using raised by simp
  moreover have "run_imports r2 = []" and "run_written r2 = None" and "run_disk r2 = run_disk r1"
    unfolding r2 using st2 by blast+
  ultimately show ?thesis
    by simp
next
  case True
  then obtain snap where go: "gates_open sys params" and s1: "cycle_fetch sys params = Inr (Some snap)"
      and us: "usable sys (google (integrations snap))"
    by blast
  let ?g = "google (integrations snap)"
  let ?accts = "normalize_accounts sys (accounts ?g)"
  let ?E2 = "ensureGogClientCredentials sys (run_disk r1) (resolveXdgConfigHome sys)
               (or_else (clientId ?g) []) (or_else (clientSecret ?g) [])"
  have c: "consistent_watermarks ?accts" and p: "''__proto__'' \<notin> email ` set ?accts"
    using cons plain s1 by blast+
  obtain state' where rs: "readState sys (run_disk r1) = Inr state'"
      and utd: "\<forall>a \<in> set ?accts. up_to_date (googleState (loop_start (run_tool r1) state')) a"
      and v: "map_of state' ''version'' = Some (JStr (version snap))"
      and en: "fst (ensureGogClientCredentials sys d (resolveXdgConfigHome sys)
                     (or_else (clientId ?g) []) (or_else (clientSecret ?g) [])) = None"
    using second_cycle [OF go s1 us r1 raised ok c p rt, of "run_tool r1"] by blast
  have en2: "fst ?E2 = None"
    unfolding ensure_creds_fst [OF refl, of sys "run_disk r1" _ _ _ d "resolveXdgConfigHome sys"
                 "or_else (clientId ?g) []" "or_else (clientSecret ?g) []"]
    by (rule en)
  have sf: "state_file (snd ?E2) = state_file (run_disk r1)"
    by (rule ensure_creds_state_file)
  have rs2: "readState sys (snd ?E2) = Inr state'"
    using rs readState_cong [OF sf refl, of sys] by simp
  have "r2 = reconcile sys snap ?accts (resolveXdgConfigHome sys) (sync_keyringPassword sys params)
               (run_tool r1) (snd ?E2)"
    unfolding r2 sync_goes [OF go s1 us] using en2 by simp
  then have "r2 = \<lparr>run_raised = None, run_tool = run_tool r1, run_disk = snd ?E2,
                   run_imports = [], run_written = None\<rparr>"
    using reconcile_quiet [OF rs2 utd v] by simp
  then show ?thesis
    using sf by simp
qed

theorem second_run_is_quiet_witness:
  "cycle_fetch ex_sys_accepting no_params = Inr (Some (ex_snapshot ''v1'' [ex_account ''a@x.com'' ''T1'']))
   \<and> run_raised ex_first_run = None
   \<and> run_imports ex_first_run
       = [(account_params ''/home/node/.openclaw'' ''gw-token'' (ex_account ''a@x.com'' ''T1''), ImportOk)]
   \<and> run_written ex_first_run = Some ex_state_imported
   \<and> JSON_parse ex_sys_accepting (JSON_stringify ex_sys_accepting (JObj ex_state_imported) @ [CHR 0x0A])
       = Inr (JObj ex_state_imported)
   \<and> run_imports ex_second_run = []
   \<and> run_written ex_second_run = None
   \<and> run_raised ex_second_run = None
   \<and> state_file (run_disk ex_second_run) = state_file (run_disk ex_first_run)"
proof -
  have raised: "run_raised ex_first_run = None"
    by code_simp
  have calls1: "run_imports ex_first_run
       = [(account_params ''/home/node/.openclaw'' ''gw-token'' (ex_account ''a@x.com'' ''T1''), ImportOk)]"
    by code_simp
  have ok: "\<forall>c \<in> set (run_imports ex_first_run). snd c = ImportOk"
    unfolding calls1 by simp
  have w: "run_written ex_first_run = Some ex_state_imported"
    by code_simp
  have p: "JSON_parse ex_sys_accepting (JSON_stringify ex_sys_accepting (JObj ex_state_imported) @ [CHR 0x0A])
             = Inr (JObj ex_state_imported)"
    by code_simp
  have f: "cycle_fetch ex_sys_accepting no_params = Inr (Some (ex_snapshot ''v1'' [ex_account ''a@x.com'' ''T1'']))"
    by code_simp
  have c0: "consistent_watermarks
              (normalize_accounts ex_sys_accepting
                 (accounts (google (integrations (ex_snapshot ''v1'' [ex_account ''a@x.com'' ''T1''])))))"
    by code_simp
  have p0: "''__proto__'' \<notin> email ` set
              (normalize_accounts ex_sys_accepting
                 (accounts (google (integrations (ex_snapshot ''v1'' [ex_account ''a@x.com'' ''T1''])))))"
    by code_simp
  have cons: "\<forall>snap. cycle_fetch ex_sys_accepting no_params = Inr (Some snap) \<longrightarrow>
                 consistent_watermarks (normalize_accounts ex_sys_accepting (accounts (google (integrations snap))))"
  proof (intro allI impI)
    fix snap
    assume "cycle_fetch ex_sys_accepting no_params = Inr (Some snap)"
    then have e: "snap = ex_snapshot ''v1'' [ex_account ''a@x.com'' ''T1'']"
      unfolding f by simp
    show "consistent_watermarks (normalize_accounts ex_sys_accepting (accounts (google (integrations snap))))"
      unfolding e by (rule c0)
  qed
  have plain: "\<forall>snap. cycle_fetch ex_sys_accepting no_params = Inr (Some snap) \<longrightarrow>
                 ''__proto__'' \<notin> email ` set (normalize_accounts ex_sys_accepting (accounts (google (integrations snap))))"
  proof (intro allI impI)
    fix snap
    assume "cycle_fetch ex_sys_accepting no_params = Inr (Some snap)"
    then have e: "snap = ex_snapshot ''v1'' [ex_account ''a@x.com'' ''T1'']"
      unfolding f by simp
    show "''__proto__'' \<notin> email ` set (normalize_accounts ex_sys_accepting (accounts (google (integrations snap))))"
      unfolding e by (rule p0)
  qed
  have rt: "\<forall>nx. run_written ex_first_run = Some nx \<longrightarrow>
               JSON_parse ex_sys_accepting (JSON_stringify ex_sys_accepting (JObj nx) @ [CHR 0x0A]) = Inr (JObj nx)"
  proof (intro allI impI)
    fix nx
    assume "run_written ex_first_run = Some nx"
    then have "nx = ex_state_imported"
      unfolding w by simp
    then show "JSON_parse ex_sys_accepting (JSON_stringify ex_sys_accepting (JObj nx) @ [CHR 0x0A]) = Inr (JObj nx)"
      using p by (simp only:)
  qed
  note t = second_run_is_quiet [OF ex_first_run_def ex_second_run_def raised ok cons plain rt]
  show ?thesis
    by (intro conjI f raised calls1 w p t [THEN conjunct1] t [THEN conjunct2, THEN conjunct1]
          t [THEN conjunct2, THEN conjunct2, THEN conjunct1]
          t [THEN conjunct2, THEN conjunct2, THEN conjunct2])
qed

section \<open>Normalized emails are the watermark keys\<close>

lemma normalize_accounts_member:
  "a \<in> set as \<Longrightarrow> String_toLowerCase sys (String_trim sys (email a)) \<noteq> [] \<Longrightarrow>
     a\<lparr>email := String_toLowerCase sys (String_trim sys (email a))\<rparr> \<in> set (normalize_accounts sys as)"
  by (force simp: normalize_accounts_def)

lemma normalize_accounts_emails:
  "e \<in> email ` set (normalize_accounts sys as) \<Longrightarrow>
     \<exists>a \<in> set as. e = String_toLowerCase sys (String_trim sys (email a)) \<and> e \<noteq> []"
  using normalize_accounts_fields by fastforce

lemma reconcile_imports:
  "\<exists>state. run_imports (reconcile sys snap accts x k w d) = loop_calls sys x k accts (loop_start w state)"
proof -
  obtain state where rs: "readState sys d = Inr state"
    using readState_total by blast
  have "run_imports (reconcile sys snap accts x k w d) = loop_calls sys x k accts (loop_start w state)"
    unfolding reconcile_unfold [OF rs] by (simp add: calls_from_start)
  then show ?thesis ..
qed

lemma cycle_import_emails:
  assumes "cycle_fetch sys params = Inr (Some snap)"
    and "c \<in> set (run_imports (syncAlfieIntegrationsOnce sys params w d))"
  shows "\<exists>a \<in> set (accounts (google (integrations snap))).
           ip_email (fst c) = String_toLowerCase sys (String_trim sys (email a)) \<and> ip_email (fst c) \<noteq> []"
proof (cases "gates_open sys params \<and> usable sys (google (integrations snap))")
  case False
  then have "\<not> (gates_open sys params
              \<and> (\<exists>s. cycle_fetch sys params = Inr (Some s) \<and> usable sys (google (integrations s))))"
    using assms(1) by auto
  then have "run_imports (syncAlfieIntegrationsOnce sys params w d) = []"
    using sync_stops [of sys params w d] by blast
  then show ?thesis
    using assms(2) by simp
next
  case True
  let ?g = "google (integrations snap)"
  let ?E = "ensureGogClientCredentials sys d (resolveXdgConfigHome sys)
              (or_else (clientId ?g) []) (or_else (clientSecret ?g) [])"
  note S = sync_goes [OF True [THEN conjunct1] assms(1) True [THEN conjunct2], of w d]
  show ?thesis
  proof (cases "fst ?E")
    case (Some e)
    then have "run_imports (syncAlfieIntegrationsOnce sys params w d) = []"
      unfolding S by (simp add: idle_def)
    then show ?thesis
      using assms(2) by simp
  next
    case None
    obtain state where "run_imports (syncAlfieIntegrationsOnce sys params w d)
        = loop_calls sys (resolveXdgConfigHome sys) (sync_keyringPassword sys params)
            (normalize_accounts sys (accounts ?g)) (loop_start w state)"
      unfolding S using None reconcile_imports by fastforce
    then have "ip_email (fst c) \<in> email ` set (normalize_accounts sys (accounts ?g))"
      using assms(2) loop_calls_emails by fastforce
    then show ?thesis
      by (rule normalize_accounts_emails)
  qed
qed

lemma variant_cycle_quiet:
  assumes rs: "readState sys d = Inr state'"
    and utd: "\<forall>a \<in> set (normalize_accounts sys as1). up_to_date (googleState (loop_start w state')) a"
    and s2: "cycle_fetch (sys\<lparr>fetch := f2\<rparr>) params = Inr (Some snap2)"
    and var: "\<forall>b \<in> set (accounts (google (integrations snap2))). \<exists>a \<in> set as1.
                 String_toLowerCase sys (String_trim sys (email b))
                   = String_toLowerCase sys (String_trim sys (email a))
               \<and> updatedAtIso b = updatedAtIso a"
  shows "run_imports (syncAlfieIntegrationsOnce (sys\<lparr>fetch := f2\<rparr>) params w d) = []"
proof (cases "gates_open sys params \<and> usable sys (google (integrations snap2))")
  case False
  then have "\<not> (gates_open (sys\<lparr>fetch := f2\<rparr>) params
              \<and> (\<exists>s. cycle_fetch (sys\<lparr>fetch := f2\<rparr>) params = Inr (Some s)
                      \<and> usable (sys\<lparr>fetch := f2\<rparr>) (google (integrations s))))"
    using s2 by auto
  then show ?thesis
    using sync_stops [of "sys\<lparr>fetch := f2\<rparr>" params w d] by blast
next
  case True
  let ?sys2 = "sys\<lparr>fetch := f2\<rparr>"
  let ?g = "google (integrations snap2)"
  let ?accts2 = "normalize_accounts sys (accounts ?g)"
  let ?E = "ensureGogClientCredentials ?sys2 d (resolveXdgConfigHome ?sys2)
              (or_else (clientId ?g) []) (or_else (clientSecret ?g) [])"
  have go: "gates_open ?sys2 params" and us: "usable ?sys2 ?g"
    using True by simp_all
  note S = sync_goes [OF go s2 us, of w d]
  have utd2: "up_to_date (googleState (loop_start w state')) b'" if mem: "b' \<in> set ?accts2" for b'
  proof -
    obtain b where b: "b \<in> set (accounts ?g)"
        "b' = b\<lparr>email := String_toLowerCase sys (String_trim sys (email b))\<rparr>" "email b' \<noteq> []"
      using normalize_accounts_fields [OF mem] by blast
    obtain a where a: "a \<in> set as1"
        "String_toLowerCase sys (String_trim sys (email b)) = String_toLowerCase sys (String_trim sys (email a))"
        "updatedAtIso b = updatedAtIso a"
      using var b(1) by blast
    let ?a' = "a\<lparr>email := String_toLowerCase sys (String_trim sys (email a))\<rparr>"
    have "String_toLowerCase sys (String_trim sys (email a)) \<noteq> []"
      using b(2,3) a(2) by simp
    then have "?a' \<in> set (normalize_accounts sys as1)"
      using a(1) by (intro normalize_accounts_member)
    then have "up_to_date (googleState (loop_start w state')) ?a'"
      using utd by blast
    moreover have "email ?a' = email b'" and "updatedAtIso ?a' = updatedAtIso b'"
      using a(2,3) b(2) by simp_all
    ultimately show ?thesis
      using up_to_date_same_watermark [of ?a' b'] by simp
  qed
  show ?thesis
  proof (cases "fst ?E")
    case (Some e)
    then show ?thesis
      unfolding S by (simp add: idle_def)
  next
    case None
    have "state_file (snd ?E) = state_file d"
      by (rule ensure_creds_state_file)
    then have "readState ?sys2 (snd ?E) = readState sys d"
      by (rule readState_cong) simp
    then have rs2: "readState ?sys2 (snd ?E) = Inr state'"
      using rs by simp
    have all2: "\<forall>b' \<in> set ?accts2. up_to_date (googleState (loop_start w state')) b'"
      using utd2 by blast
    have "run_imports (reconcile ?sys2 snap2 ?accts2 (resolveXdgConfigHome ?sys2)
                         (sync_keyringPassword ?sys2 params) w (snd ?E)) = []"
      using rs2 all2 by (rule reconcile_no_imports)
    then show ?thesis
      unfolding S using None by simp
  qed
qed

text \<open>
  The tool rejects every import. The first cycle receives the email with surrounding spaces and
  capitals and calls the importer for its normalized form; the import fails, and the state is
  written without a watermark. The next cycle receives the plain spelling with the same
  \<^verbatim>\<open>updatedAtIso\<close>, and calls the importer for the same mailbox again.
\<close>

theorem variant_import_counterexample:
  "run_raised ex_spaced_refused_run = None
   \<and> run_imports ex_spaced_refused_run
       = [(account_params ''/home/node/.openclaw'' ''gw-token'' (ex_account ''user@example.com'' ''T1''),
           ImportFailed ''invalid_grant'')]
   \<and> readState ex_sys_spaced_refused (run_disk ex_spaced_refused_run) = Inr ex_state_not_imported
   \<and> run_imports ex_plain_refused_run
       = [(account_params ''/home/node/.openclaw'' ''gw-token'' (ex_account ''user@example.com'' ''T1''),
           ImportFailed ''invalid_grant'')]"
  by code_simp

text \<open>
  C8, as the code has it. Let a cycle receive the snapshot \<open>snap1\<close>. Every importer call of the
  cycle carries the email of an account of the snapshot, trimmed and lower-cased, and that email
  is not empty. Suppose moreover that the cycle reached the import loop (the tests of lines 171
  to 188 and of lines 201 to 212 passed), raised nothing, and every import it made succeeded;
  that the entries of the snapshot which share a normalized email share their \<^verbatim>\<open>updatedAtIso\<close>;
  that no normalized email is the property name \<^verbatim>\<open>__proto__\<close>; and that the state written, if
  one was, parses back from its serialization. Then the state read from the disk after the
  cycle holds, for every account of the snapshot whose normalized email is not empty, the
  \<^verbatim>\<open>updatedAtIso\<close> of the account under the normalized email. And a next cycle on the same
  platform, whose snapshot \<open>snap2\<close> lists only accounts that have the normalized email and the
  \<^verbatim>\<open>updatedAtIso\<close> of an account of \<open>snap1\<close>, calls the importer not once.
\<close>

theorem normalized_email_is_the_key:
  assumes r1: "r1 = syncAlfieIntegrationsOnce sys params w d"
    and r2: "r2 = syncAlfieIntegrationsOnce (sys\<lparr>fetch := f2\<rparr>) params (run_tool r1) (run_disk r1)"
    and s1: "cycle_fetch sys params = Inr (Some snap1)"
    and as1: "as1 = accounts (google (integrations snap1))"
  shows "(\<forall>c \<in> set (run_imports r1). \<exists>a \<in> set as1.
            ip_email (fst c) = String_toLowerCase sys (String_trim sys (email a)) \<and> ip_email (fst c) \<noteq> [])
       \<and> (gates_open sys params \<and> usable sys (google (integrations snap1))
            \<and> run_raised r1 = None
            \<and> (\<forall>c \<in> set (run_imports r1). snd c = ImportOk)
            \<and> consistent_watermarks (normalize_accounts sys as1)
            \<and> ''__proto__'' \<notin> email ` set (normalize_accounts sys as1)
            \<and> (\<forall>nx. run_written r1 = Some nx \<longrightarrow>
                   JSON_parse sys (JSON_stringify sys (JObj nx) @ [CHR 0x0A]) = Inr (JObj nx))
          \<longrightarrow> (\<exists>state'. readState sys (run_disk r1) = Inr state'
                  \<and> (\<forall>a \<in> set as1. String_toLowerCase sys (String_trim sys (email a)) \<noteq> [] \<longrightarrow>
                        stored_watermark (googleState (loop_start (run_tool r1) state'))
                          (String_toLowerCase sys (String_trim sys (email a)))
                          = Some (JStr (updatedAtIso a))))
              \<and> (cycle_fetch (sys\<lparr>fetch := f2\<rparr>) params = Inr (Some snap2)
                   \<and> (\<forall>b \<in> set (accounts (google (integrations snap2))). \<exists>a \<in> set as1.
                          String_toLowerCase sys (String_trim sys (email b))
                            = String_toLowerCase sys (String_trim sys (email a))
                        \<and> updatedAtIso b = updatedAtIso a)
                 \<longrightarrow> run_imports r2 = []))"
proof (intro conjI ballI impI)
  fix c
  assume "c \<in> set (run_imports r1)"
  then show "\<exists>a \<in> set as1.
            ip_email (fst c) = String_toLowerCase sys (String_trim sys (email a)) \<and> ip_email (fst c) \<noteq> []"
    unfolding r1 as1 by (rule cycle_import_emails [OF s1])
next
  assume H: "gates_open sys params \<and> usable sys (google (integrations snap1))
            \<and> run_raised r1 = None
            \<and> (\<forall>c \<in> set (run_imports r1). snd c = ImportOk)
            \<and> consistent_watermarks (normalize_accounts sys as1)
            \<and> ''__proto__'' \<notin> email ` set (normalize_accounts sys as1)
            \<and> (\<forall>nx. run_written r1 = Some nx \<longrightarrow>
                   JSON_parse sys (JSON_stringify sys (JObj nx) @ [CHR 0x0A]) = Inr (JObj nx))"
  then have go: "gates_open sys params" and us: "usable sys (google (integrations snap1))"
      and raised: "run_raised r1 = None"
      and ok: "\<forall>c \<in> set (run_imports r1). snd c = ImportOk"
      and cons: "consistent_watermarks (normalize_accounts sys (accounts (google (integrations snap1))))"
      and plain: "''__proto__'' \<notin> email ` set (normalize_accounts sys (accounts (google (integrations snap1))))"
      and rt: "\<forall>nx. run_written r1 = Some nx \<longrightarrow>
                   JSON_parse sys (JSON_stringify sys (JObj nx) @ [CHR 0x0A]) = Inr (JObj nx)"
    unfolding as1 by blast+
  obtain state' where rs: "readState sys (run_disk r1) = Inr state'"
      and utd: "\<forall>a \<in> set (normalize_accounts sys (accounts (google (integrations snap1)))).
                  up_to_date (googleState (loop_start (run_tool r1) state')) a"
    using second_cycle [OF go s1 us r1 raised ok cons plain rt, of "run_tool r1"] by blast
  obtain js where js: "AlfieIntegrationSnapshotSchema (Some js) = Some snap1"
    using fetched_valid [OF s1 [unfolded cycle_fetch_def]] by blast
  have stored: "stored_watermark (googleState (loop_start (run_tool r1) state'))
                  (String_toLowerCase sys (String_trim sys (email a))) = Some (JStr (updatedAtIso a))"
    if mem: "a \<in> set as1" and ne: "String_toLowerCase sys (String_trim sys (email a)) \<noteq> []" for a
  proof -
    let ?a' = "a\<lparr>email := String_toLowerCase sys (String_trim sys (email a))\<rparr>"
    have in': "?a' \<in> set (normalize_accounts sys (accounts (google (integrations snap1))))"
      using mem ne unfolding as1 by (rule normalize_accounts_member)
    then have "up_to_date (googleState (loop_start (run_tool r1) state')) ?a'"
      using utd by blast
    moreover have "updatedAtIso ?a' \<noteq> []"
      using schema_normalized_nonempty [OF js in'] .
    ultimately show ?thesis
      using up_to_date_iff [of ?a' "googleState (loop_start (run_tool r1) state')"] by simp
  qed
  show "\<exists>state'. readState sys (run_disk r1) = Inr state'
          \<and> (\<forall>a \<in> set as1. String_toLowerCase sys (String_trim sys (email a)) \<noteq> [] \<longrightarrow>
                stored_watermark (googleState (loop_start (run_tool r1) state'))
                  (String_toLowerCase sys (String_trim sys (email a)))
                  = Some (JStr (updatedAtIso a)))"
    using rs stored by blast
  assume V: "cycle_fetch (sys\<lparr>fetch := f2\<rparr>) params = Inr (Some snap2)
             \<and> (\<forall>b \<in> set (accounts (google (integrations snap2))). \<exists>a \<in> set as1.
                    String_toLowerCase sys (String_trim sys (email b))
                      = String_toLowerCase sys (String_trim sys (email a))
                  \<and> updatedAtIso b = updatedAtIso a)"
  have utd1: "\<forall>a \<in> set (normalize_accounts sys as1). up_to_date (googleState (loop_start (run_tool r1) state')) a"
    using utd unfolding as1 .
  show "run_imports r2 = []"
    unfolding r2 using rs utd1 V [THEN conjunct1] V [THEN conjunct2] by (rule variant_cycle_quiet)
qed

theorem normalized_email_is_the_key_witness:
  "cycle_fetch ex_sys_spaced no_params
     = Inr (Some (ex_snapshot ''v1'' [ex_account ''  User@Example.com '' ''T1'']))
   \<and> gates_open ex_sys_spaced no_params
   \<and> usable ex_sys_spaced (google (integrations (ex_snapshot ''v1'' [ex_account ''  User@Example.com '' ''T1''])))
   \<and> run_imports ex_spaced_run
       = [(account_params ''/home/node/.openclaw'' ''gw-token'' (ex_account ''user@example.com'' ''T1''), ImportOk)]
   \<and> run_raised ex_spaced_run = None
   \<and> cycle_fetch (ex_sys_spaced\<lparr>fetch := ex_plain_fetch\<rparr>) no_params
       = Inr (Some (ex_snapshot ''v1'' [ex_account ''user@example.com'' ''T1'']))
   \<and> (\<exists>state'. readState ex_sys_spaced (run_disk ex_spaced_run) = Inr state'
          \<and> stored_watermark (googleState (loop_start (run_tool ex_spaced_run) state')) ''user@example.com''
              = Some (JStr ''T1''))
   \<and> run_imports ex_plain_run = []"
proof -
  let ?A = "ex_account ''  User@Example.com '' ''T1''"
  let ?snap1 = "ex_snapshot ''v1'' [?A]"
  let ?snap2 = "ex_snapshot ''v1'' [ex_account ''user@example.com'' ''T1'']"
  have s1: "cycle_fetch ex_sys_spaced no_params = Inr (Some ?snap1)"
    by code_simp
  have s2: "cycle_fetch (ex_sys_spaced\<lparr>fetch := ex_plain_fetch\<rparr>) no_params = Inr (Some ?snap2)"
    by code_simp
  have go: "gates_open ex_sys_spaced no_params"
    by code_simp
  have us: "usable ex_sys_spaced (google (integrations ?snap1))"
    by code_simp
  have as1: "[?A] = accounts (google (integrations ?snap1))"
    by (simp add: ex_snapshot_def)
  have calls1: "run_imports ex_spaced_run
       = [(account_params ''/home/node/.openclaw'' ''gw-token'' (ex_account ''user@example.com'' ''T1''), ImportOk)]"
    by code_simp
  have raised: "run_raised ex_spaced_run = None"
    by code_simp
  have ok: "\<forall>c \<in> set (run_imports ex_spaced_run). snd c = ImportOk"
    unfolding calls1 by simp
  have cons: "consistent_watermarks (normalize_accounts ex_sys_spaced [?A])"
    by code_simp
  have plain: "''__proto__'' \<notin> email ` set (normalize_accounts ex_sys_spaced [?A])"
    by code_simp
  have w: "run_written ex_spaced_run = Some ex_state_user"
    by code_simp
  have p: "JSON_parse ex_sys_spaced (JSON_stringify ex_sys_spaced (JObj ex_state_user) @ [CHR 0x0A])
             = Inr (JObj ex_state_user)"
    by code_simp
  have rt: "\<forall>nx. run_written ex_spaced_run = Some nx \<longrightarrow>
               JSON_parse ex_sys_spaced (JSON_stringify ex_sys_spaced (JObj nx) @ [CHR 0x0A]) = Inr (JObj nx)"
  proof (intro allI impI)
    fix nx
    assume "run_written ex_spaced_run = Some nx"
    then have e: "nx = ex_state_user"
      unfolding w by simp
    show "JSON_parse ex_sys_spaced (JSON_stringify ex_sys_spaced (JObj nx) @ [CHR 0x0A]) = Inr (JObj nx)"
      unfolding e by (rule p)
  qed
  have var: "\<forall>b \<in> set (accounts (google (integrations ?snap2))). \<exists>a \<in> set [?A].
                 String_toLowerCase ex_sys_spaced (String_trim ex_sys_spaced (email b))
                   = String_toLowerCase ex_sys_spaced (String_trim ex_sys_spaced (email a))
               \<and> updatedAtIso b = updatedAtIso a"
    by code_simp
  note t = normalized_email_is_the_key [OF ex_spaced_run_def ex_plain_run_def s1 as1, of ?snap2,
             THEN conjunct2, THEN mp,
             OF conjI [OF go conjI [OF us conjI [OF raised conjI [OF ok conjI [OF cons conjI [OF plain rt]]]]]]]
  obtain state' where rs: "readState ex_sys_spaced (run_disk ex_spaced_run) = Inr state'"
      and st: "\<forall>a \<in> set [?A]. String_toLowerCase ex_sys_spaced (String_trim ex_sys_spaced (email a)) \<noteq> [] \<longrightarrow>
                 stored_watermark (googleState (loop_start (run_tool ex_spaced_run) state'))
                   (String_toLowerCase ex_sys_spaced (String_trim ex_sys_spaced (email a)))
                   = Some (JStr (updatedAtIso a))"
    using t [THEN conjunct1] by (elim exE conjE)
  have n: "String_toLowerCase ex_sys_spaced (String_trim ex_sys_spaced (email ?A)) = ''user@example.com''"
    by code_simp
  have u: "updatedAtIso ?A = ''T1''"
    by (simp add: ex_account_def)
  have mem: "?A \<in> set [?A]"
    by simp
  have ne: "''user@example.com'' \<noteq> []"
    by simp
  have sw: "stored_watermark (googleState (loop_start (run_tool ex_spaced_run) state')) ''user@example.com''
              = Some (JStr ''T1'')"
    using st [rule_format, OF mem, unfolded n u, OF ne] .
  have b: "\<exists>state'. readState ex_sys_spaced (run_disk ex_spaced_run) = Inr state'
          \<and> stored_watermark (googleState (loop_start (run_tool ex_spaced_run) state')) ''user@example.com''
              = Some (JStr ''T1'')"
    by (intro exI [of _ state'] conjI rs sw)
  have c: "run_imports ex_plain_run = []"
    by (rule t [THEN conjunct2, THEN mp, OF conjI [OF s2 var]])
  show ?thesis
    by (intro conjI s1 go us calls1 raised s2 b c)
qed

end
